theory Spec2Isabelle
  imports Main "HOL-Library.Word"
begin

section \<open>Strings, numbers and Maps of the host language\<close>

text \<open>
  A JavaScript string is a sequence of UTF-16 code units. \<open>+\<close> on strings is list
  append, \<open>s.length\<close> is the number of code units, \<open>s.slice(1)\<close> drops one code unit.
\<close>

type_synonym code_unit = "16 word"
type_synonym jsstring = "code_unit list"

definition ascii :: "string \<Rightarrow> jsstring" where
  "ascii s = map of_char s"

definition SPACE :: code_unit where
  "SPACE = 0x20"

text \<open>The word-start marker U+2581 (LOWER ONE EIGHTH BLOCK), one code unit.\<close>

definition WORD_START :: code_unit where
  "WORD_START = 0x2581"

definition is_high_surrogate :: "code_unit \<Rightarrow> bool" where
  "is_high_surrogate c = (0xD800 \<le> c \<and> c \<le> 0xDBFF)"

definition is_low_surrogate :: "code_unit \<Rightarrow> bool" where
  "is_low_surrogate c = (0xDC00 \<le> c \<and> c \<le> 0xDFFF)"

text \<open>
  \<open>Array.from(word)\<close> iterates a string by code points: a high surrogate followed by a
  low surrogate is one element of two code units, every other code unit is an element
  of its own.
\<close>

fun Array_from :: "jsstring \<Rightarrow> jsstring list" where
  "Array_from [] = []"
| "Array_from [c] = [[c]]"
| "Array_from (c # d # cs) =
     (if is_high_surrogate c \<and> is_low_surrogate d then [c, d] # Array_from cs
      else [c] # Array_from (d # cs))"

text \<open>
  JavaScript numbers, as far as the tokenizer meets them: integers, \<open>NaN\<close> and the two
  infinities (\<open>Math.max()\<close> of nothing is \<open>-Infinity\<close>).
\<close>

datatype jsnum = Fin int | NaN | PosInf | NegInf

text \<open>
  The values a vocabulary entry can hold: what \<open>JSON.parse\<close> yields for an id (a number,
  a string, a boolean, \<open>null\<close>, or a plain object \<open>JObj\<close>), and \<open>undefined\<close>, which is
  what \<open>Map.get\<close> returns on a miss.
\<close>

datatype jsval = JNum jsnum | JStr jsstring | JBool bool | JNull | JUndef | JObj

text \<open>
  \<open>Number(v)\<close>. The conversion of a string (StringToNumber of the language standard) is
  a parameter \<open>s2n\<close>; a plain object converts to \<open>NaN\<close>.
\<close>

fun Number :: "(jsstring \<Rightarrow> jsnum) \<Rightarrow> jsval \<Rightarrow> jsnum" where
  "Number s2n (JNum n) = n"
| "Number s2n (JStr s) = s2n s"
| "Number s2n (JBool b) = Fin (if b then 1 else 0)"
| "Number s2n JNull = Fin 0"
| "Number s2n JUndef = NaN"
| "Number s2n JObj = NaN"

text \<open>
  A \<open>Map\<close> iterates in insertion order, and \<open>set\<close> on a key that is present keeps the
  key's place: an association list with at most one entry per key.
\<close>

type_synonym ('k, 'v) jsmap = "('k \<times> 'v) list"

fun Map_set :: "('k, 'v) jsmap \<Rightarrow> 'k \<Rightarrow> 'v \<Rightarrow> ('k, 'v) jsmap" where
  "Map_set [] k v = [(k, v)]"
| "Map_set ((k', v') # m) k v =
     (if k' = k then (k, v) # m else (k', v') # Map_set m k v)"

definition Map_get :: "('k, 'v) jsmap \<Rightarrow> 'k \<Rightarrow> 'v option" where
  "Map_get m k = map_of m k"

definition Map_has :: "('k, 'v) jsmap \<Rightarrow> 'k \<Rightarrow> bool" where
  "Map_has m k = (map_of m k \<noteq> None)"

section \<open>The tokenizer\<close>

record tokenizer =
  lower :: bool
  specialTokens :: "jsstring list"
  tokenToId :: "(jsstring, jsval) jsmap"
  idToToken :: "(jsnum, jsstring) jsmap"
  merges :: "(jsstring \<times> jsstring) list"
  counts :: "(jsstring, int) jsmap"
  nextId :: jsnum

subsection \<open>\<open>_wordToChars\<close>\<close>

definition wordToChars :: "jsstring \<Rightarrow> jsstring list" where
  "wordToChars word =
     (let chars = Array_from word in
      if length chars = 0 then []
      else (WORD_START # hd chars) # tl chars)"

subsection \<open>\<open>_applyBPEToWord\<close>\<close>

text \<open>
  The lookup table of the merges: the key of rule \<open>i\<close> is \<open>a + ' ' + b\<close>, its value is
  \<open>i\<close>. A later rule with the same key overwrites the value.
\<close>

definition pair_key :: "jsstring \<Rightarrow> jsstring \<Rightarrow> jsstring" where
  "pair_key a b = a @ [SPACE] @ b"

fun build_mergeMap ::
  "(jsstring \<times> jsstring) list \<Rightarrow> nat \<Rightarrow> (jsstring, nat) jsmap \<Rightarrow> (jsstring, nat) jsmap" where
  "build_mergeMap [] i mm = mm"
| "build_mergeMap ((a, b) # ms) i mm = build_mergeMap ms (i + 1) (Map_set mm (pair_key a b) i)"

text \<open>
  The \<open>for\<close> loop of one \<open>while\<close> iteration. Its state is \<open>(bestPos, bestRank, done)\<close>,
  started at \<open>(-1, Infinity, true)\<close>; \<open>None\<close> stands for the rank \<open>Infinity\<close>.
\<close>

definition rank_less :: "nat \<Rightarrow> nat option \<Rightarrow> bool" where
  "rank_less rank bestRank = (case bestRank of None \<Rightarrow> True | Some b \<Rightarrow> rank < b)"

fun scan_pairs ::
  "(jsstring, nat) jsmap \<Rightarrow> jsstring list \<Rightarrow> nat \<Rightarrow> int \<times> nat option \<times> bool
     \<Rightarrow> int \<times> nat option \<times> bool" where
  "scan_pairs mm (p # q # rest) i (bestPos, bestRank, done) =
     scan_pairs mm (q # rest) (i + 1)
       (case Map_get mm (pair_key p q) of
          None \<Rightarrow> (bestPos, bestRank, done)
        | Some rank \<Rightarrow>
            if rank_less rank bestRank then (int i, Some rank, False)
            else (bestPos, bestRank, done))"
| "scan_pairs mm pieces i st = st"

text \<open>\<open>pieces.splice(pos, 2, merged)\<close>.\<close>

definition splice2 :: "jsstring list \<Rightarrow> nat \<Rightarrow> jsstring \<Rightarrow> jsstring list" where
  "splice2 pieces pos merged = take pos pieces @ [merged] @ drop (pos + 2) pieces"

text \<open>
  One iteration of the \<open>while\<close> loop: the pieces after it, and the flag \<open>done\<close> that the
  loop tests. The indices \<open>bestPos\<close> and \<open>bestPos + 1\<close> are read only when the scan has
  set them, and then they are in range (lemma \<open>scan_pairs_range\<close> below).
\<close>

definition bpe_iter :: "(jsstring, nat) jsmap \<Rightarrow> jsstring list \<Rightarrow> jsstring list \<times> bool" where
  "bpe_iter mm pieces =
     (case scan_pairs mm pieces 0 (- 1, None, True) of
        (bestPos, bestRank, done) \<Rightarrow>
          (if \<not> done \<and> bestPos \<ge> 0
           then splice2 pieces (nat bestPos) (pieces ! nat bestPos @ pieces ! (nat bestPos + 1))
           else pieces,
           done))"

lemma scan_pairs_range:
  "scan_pairs mm pieces i st = (bestPos, bestRank, done) \<Longrightarrow>
   (case st of (bp, br, d) \<Rightarrow> d \<or> (0 \<le> bp \<and> nat bp + 1 < i + length pieces)) \<Longrightarrow>
   done \<or> (0 \<le> bestPos \<and> nat bestPos + 1 < i + length pieces)"
proof (induction mm pieces i st arbitrary: bestPos bestRank "done" rule: scan_pairs.induct)
  case (1 mm p q rest i bp br d)
  let ?st = "case Map_get mm (pair_key p q) of
          None \<Rightarrow> (bp, br, d)
        | Some rank \<Rightarrow>
            if rank_less rank br then (int i, Some rank, False)
            else (bp, br, d)"
  have run: "scan_pairs mm (q # rest) (i + 1) ?st = (bestPos, bestRank, done)"
    using "1.prems"(1) by simp
  have pre: "case ?st of (bp', br', d') \<Rightarrow>
      d' \<or> (0 \<le> bp' \<and> nat bp' + 1 < (i + 1) + length (q # rest))"
    using "1.prems"(2) by (auto split: option.splits)
  from "1.IH"[OF run pre] show ?case by simp
qed (auto split: prod.splits)

lemma bpe_iter_length:
  assumes "bpe_iter mm pieces = (pieces', False)"
  shows "Suc (length pieces') = length pieces"
proof -
  obtain bestPos bestRank d where
    sc: "scan_pairs mm pieces 0 (- 1, None, True) = (bestPos, bestRank, d)"
    by (cases "scan_pairs mm pieces 0 (- 1, None, True)") auto
  from assms sc have d: "\<not> d" by (simp add: bpe_iter_def)
  from scan_pairs_range[OF sc] d have rng: "0 \<le> bestPos" "nat bestPos + 1 < length pieces"
    by auto
  from assms sc d rng have
    "pieces' = splice2 pieces (nat bestPos) (pieces ! nat bestPos @ pieces ! (nat bestPos + 1))"
    by (simp add: bpe_iter_def)
  with rng show ?thesis by (simp add: splice2_def)
qed

text \<open>
  The \<open>while (!done)\<close> loop. It is entered with \<open>done = false\<close> and runs the body until
  the body leaves \<open>done\<close> true.
\<close>

function bpe_loop :: "(jsstring, nat) jsmap \<Rightarrow> jsstring list \<Rightarrow> jsstring list" where
  "bpe_loop mm pieces =
     (case bpe_iter mm pieces of
        (pieces', done) \<Rightarrow> if done then pieces' else bpe_loop mm pieces')"
  by pat_completeness auto
termination
proof (relation "measure (\<lambda>(mm, pieces). length pieces)")
  show "wf (measure (\<lambda>(mm, pieces). length pieces))" by simp
next
  fix mm :: "(jsstring, nat) jsmap" and pieces x :: "jsstring list" and y :: bool
  assume "(x, y) = bpe_iter mm pieces" and "\<not> y"
  then have "bpe_iter mm pieces = (x, False)" by simp
  from bpe_iter_length[OF this]
  show "((mm, x), (mm, pieces)) \<in> measure (\<lambda>(mm, pieces). length pieces)" by simp
qed

text \<open>The number of merges the loop performs: its iterations that end with \<open>done\<close> false.\<close>

function bpe_merge_count :: "(jsstring, nat) jsmap \<Rightarrow> jsstring list \<Rightarrow> nat" where
  "bpe_merge_count mm pieces =
     (case bpe_iter mm pieces of
        (pieces', done) \<Rightarrow> if done then 0 else Suc (bpe_merge_count mm pieces'))"
  by pat_completeness auto
termination
proof (relation "measure (\<lambda>(mm, pieces). length pieces)")
  show "wf (measure (\<lambda>(mm, pieces). length pieces))" by simp
next
  fix mm :: "(jsstring, nat) jsmap" and pieces x :: "jsstring list" and y :: bool
  assume "(x, y) = bpe_iter mm pieces" and "\<not> y"
  then have "bpe_iter mm pieces = (x, False)" by simp
  from bpe_iter_length[OF this]
  show "((mm, x), (mm, pieces)) \<in> measure (\<lambda>(mm, pieces). length pieces)" by simp
qed

declare bpe_loop.simps [simp del] bpe_merge_count.simps [simp del]

definition applyBPEToWord :: "tokenizer \<Rightarrow> jsstring \<Rightarrow> jsstring list" where
  "applyBPEToWord t word =
     (let pieces = wordToChars word in
      if length pieces = 0 then []
      else bpe_loop (build_mergeMap (merges t) 0 []) pieces)"

definition applyBPE_merge_count :: "tokenizer \<Rightarrow> jsstring \<Rightarrow> nat" where
  "applyBPE_merge_count t word =
     (let pieces = wordToChars word in
      if length pieces = 0 then 0
      else bpe_merge_count (build_mergeMap (merges t) 0 []) pieces)"

subsection \<open>\<open>_initSpecials\<close>\<close>

fun initSpecials_loop ::
  "jsstring list \<Rightarrow> int \<Rightarrow> (jsstring, jsval) jsmap \<times> (jsnum, jsstring) jsmap
     \<Rightarrow> (jsstring, jsval) jsmap \<times> (jsnum, jsstring) jsmap \<times> int" where
  "initSpecials_loop [] idx (t2i, i2t) = (t2i, i2t, idx)"
| "initSpecials_loop (st # sts) idx (t2i, i2t) =
     initSpecials_loop sts (idx + 1) (Map_set t2i st (JNum (Fin idx)), Map_set i2t (Fin idx) st)"

definition initSpecials :: "tokenizer \<Rightarrow> tokenizer" where
  "initSpecials t =
     (case initSpecials_loop (specialTokens t) 0 ([], []) of
        (t2i, i2t, idx) \<Rightarrow> t\<lparr>tokenToId := t2i, idToToken := i2t, nextId := Fin idx\<rparr>)"

subsection \<open>Splitting and joining\<close>

text \<open>
  The characters that the regular expression class \<open>\s\<close> matches: the white space and
  line terminators of the language standard.
\<close>

definition is_space :: "code_unit \<Rightarrow> bool" where
  "is_space c =
     (c = 0x9 \<or> c = 0xA \<or> c = 0xB \<or> c = 0xC \<or> c = 0xD \<or> c = 0x20 \<or> c = 0xA0 \<or> c = 0x1680
      \<or> (0x2000 \<le> c \<and> c \<le> 0x200A) \<or> c = 0x2028 \<or> c = 0x2029 \<or> c = 0x202F \<or> c = 0x205F
      \<or> c = 0x3000 \<or> c = 0xFEFF)"

text \<open>
  \<open>text.split(/\r?\n/)\<close>: the lines of a text. \<open>cur\<close> is the line read so far. A line
  ends at a line feed; a carriage return right before it belongs to the separator.
\<close>

fun split_lines :: "jsstring \<Rightarrow> jsstring \<Rightarrow> jsstring list" where
  "split_lines cur [] = [cur]"
| "split_lines cur [c] = (if c = 0xA then [cur, []] else [cur @ [c]])"
| "split_lines cur (c # d # cs) =
     (if c = 0xA then cur # split_lines [] (d # cs)
      else if c = 0xD \<and> d = 0xA then cur # split_lines [] cs
      else split_lines (cur @ [c]) (d # cs))"

text \<open>
  \<open>line.split(/\s+/)\<close>: the pieces between maximal runs of white space, empty pieces at
  the ends included. \<open>insep\<close> says that the scan is inside a run of white space.
\<close>

fun split_ws :: "bool \<Rightarrow> jsstring \<Rightarrow> jsstring \<Rightarrow> jsstring list" where
  "split_ws insep cur [] = [cur]"
| "split_ws insep cur (c # cs) =
     (if is_space c then (if insep then split_ws True cur cs else cur # split_ws True [] cs)
      else split_ws False (cur @ [c]) cs)"

text \<open>\<open>line.split(/\s+/).filter(Boolean)\<close>: the empty strings are dropped.\<close>

definition words_of :: "jsstring \<Rightarrow> jsstring list" where
  "words_of line = filter (\<lambda>w. w \<noteq> []) (split_ws False [] line)"

text \<open>\<open>pieces.join(' ')\<close> and \<open>key.split(' ')\<close>.\<close>

fun join_sp :: "jsstring list \<Rightarrow> jsstring" where
  "join_sp [] = []"
| "join_sp [p] = p"
| "join_sp (p # q # ps) = p @ [SPACE] @ join_sp (q # ps)"

fun split_sp_from :: "jsstring \<Rightarrow> jsstring \<Rightarrow> jsstring list" where
  "split_sp_from cur [] = [cur]"
| "split_sp_from cur (c # cs) =
     (if c = SPACE then cur # split_sp_from [] cs else split_sp_from (cur @ [c]) cs)"

definition split_sp :: "jsstring \<Rightarrow> jsstring list" where
  "split_sp s = split_sp_from [] s"

subsection \<open>\<open>trainFromText\<close>\<close>

text \<open>
  The options of a training run. JavaScript numbers are modelled as integers here;
  \<open>verbose\<close> only writes progress lines to the error stream and is left out.
\<close>

record train_opts =
  minFrequency :: int
  mergeOps :: int

text \<open>\<open>(m.get(k) || 0)\<close>.\<close>

definition get_or_0 :: "('k, int) jsmap \<Rightarrow> 'k \<Rightarrow> int" where
  "get_or_0 m k = (case Map_get m k of None \<Rightarrow> 0 | Some c \<Rightarrow> c)"

text \<open>
  The first loop: the words of every line are counted under the key of their initial
  pieces. \<open>norm\<close> is \<open>l.normalize('NFC').toLowerCase()\<close>, a parameter.
\<close>

fun count_words :: "jsstring list \<Rightarrow> (jsstring, int) jsmap \<Rightarrow> (jsstring, int) jsmap" where
  "count_words [] cs = cs"
| "count_words (w # ws) cs =
     (let pieces = wordToChars w; key = join_sp pieces
      in count_words ws (Map_set cs key (get_or_0 cs key + 1)))"

fun count_lines ::
  "(jsstring \<Rightarrow> jsstring) \<Rightarrow> bool \<Rightarrow> jsstring list \<Rightarrow> (jsstring, int) jsmap
     \<Rightarrow> (jsstring, int) jsmap" where
  "count_lines norm low [] cs = cs"
| "count_lines norm low (l # ls) cs =
     (let line = (if low then norm l else l); words = words_of line
      in count_lines norm low ls (count_words words cs))"

text \<open>The pair frequency table of one iteration.\<close>

fun add_pairs :: "jsstring list \<Rightarrow> int \<Rightarrow> (jsstring, int) jsmap \<Rightarrow> (jsstring, int) jsmap" where
  "add_pairs (p # q # rest) cnt pc =
     add_pairs (q # rest) cnt (Map_set pc (pair_key p q) (get_or_0 pc (pair_key p q) + cnt))"
| "add_pairs pieces cnt pc = pc"

fun count_pairs ::
  "(jsstring, int) jsmap \<Rightarrow> int \<Rightarrow> (jsstring, int) jsmap \<Rightarrow> (jsstring, int) jsmap" where
  "count_pairs [] minFreq pc = pc"
| "count_pairs ((wordPiecesStr, cnt) # es) minFreq pc =
     count_pairs es minFreq
       (if cnt < minFreq then pc else add_pairs (split_sp wordPiecesStr) cnt pc)"

text \<open>The best pair: the first entry, in insertion order, with the highest count.\<close>

fun find_best ::
  "(jsstring, int) jsmap \<Rightarrow> jsstring option \<times> int \<Rightarrow> jsstring option \<times> int" where
  "find_best [] st = st"
| "find_best ((p, c) # es) (bestPair, bestCount) =
     find_best es (if c > bestCount then (Some p, c) else (bestPair, bestCount))"

text \<open>One pass over the pieces of a word, replacing \<open>a, b\<close> by \<open>ab\<close> from left to right.\<close>

fun merge_pass :: "jsstring \<Rightarrow> jsstring \<Rightarrow> jsstring list \<Rightarrow> jsstring list" where
  "merge_pass a b (p # q # rest) =
     (if p = a \<and> q = b then (a @ b) # merge_pass a b rest
      else p # merge_pass a b (q # rest))"
| "merge_pass a b pieces = pieces"

fun apply_merge ::
  "jsstring \<Rightarrow> jsstring \<Rightarrow> (jsstring, int) jsmap \<Rightarrow> (jsstring, int) jsmap
     \<Rightarrow> (jsstring, int) jsmap" where
  "apply_merge a b [] newCounts = newCounts"
| "apply_merge a b ((wordPiecesStr, cnt) # es) newCounts =
     (let out = merge_pass a b (split_sp wordPiecesStr); nk = join_sp out
      in apply_merge a b es (Map_set newCounts nk (get_or_0 newCounts nk + cnt)))"

text \<open>
  The body of the training loop. \<open>None\<close> is a \<open>break\<close>; otherwise the key of the best
  pair, the rule \<open>(a, b)\<close> read off it, its count, and the new word counts. The key of a
  pair holds a space, so its split has the two parts that are read (lemma
  \<open>pair_key_parts\<close> below).
\<close>

record train_step =
  bestPair :: jsstring
  rule :: "jsstring \<times> jsstring"
  bestCount :: int
  newCounts :: "(jsstring, int) jsmap"

definition train_iter :: "int \<Rightarrow> (jsstring, int) jsmap \<Rightarrow> train_step option" where
  "train_iter minFreq cs =
     (let pairCounts = count_pairs cs minFreq [] in
      if length pairCounts = 0 then None
      else case find_best pairCounts (None, 0) of
        (best, cnt) \<Rightarrow>
          if best = None \<or> best = Some [] \<or> cnt < minFreq then None
          else let parts = split_sp (the best); a = parts ! 0; b = parts ! 1
               in Some \<lparr>bestPair = the best, rule = (a, b), bestCount = cnt,
                        newCounts = apply_merge a b cs []\<rparr>)"

fun train_loop ::
  "nat \<Rightarrow> int \<Rightarrow> (jsstring, int) jsmap \<Rightarrow> (jsstring \<times> jsstring) list
     \<Rightarrow> (jsstring, int) jsmap \<times> (jsstring \<times> jsstring) list" where
  "train_loop 0 minFreq cs ms = (cs, ms)"
| "train_loop (Suc n) minFreq cs ms =
     (case train_iter minFreq cs of
        None \<Rightarrow> (cs, ms)
      | Some s \<Rightarrow> train_loop n minFreq (newCounts s) (ms @ [rule s]))"

text \<open>A \<open>Set\<close> iterates in insertion order; \<open>add\<close> of a member changes nothing.\<close>

definition Set_add :: "'a list \<Rightarrow> 'a \<Rightarrow> 'a list" where
  "Set_add xs x = (if x \<in> set xs then xs else xs @ [x])"

fun collect_tokens :: "jsstring list \<Rightarrow> jsstring list \<Rightarrow> jsstring list" where
  "collect_tokens [] tokenSet = tokenSet"
| "collect_tokens (k # ks) tokenSet = collect_tokens ks (foldl Set_add tokenSet (split_sp k))"

definition js_succ :: "jsnum \<Rightarrow> jsnum" where
  "js_succ n = (case n of Fin i \<Rightarrow> Fin (i + 1) | other \<Rightarrow> other)"

fun assign_ids :: "jsstring list \<Rightarrow> tokenizer \<Rightarrow> tokenizer" where
  "assign_ids [] t = t"
| "assign_ids (tok # toks) t =
     (if Map_has (tokenToId t) tok then assign_ids toks t
      else assign_ids toks
        (t\<lparr>tokenToId := Map_set (tokenToId t) tok (JNum (nextId t)),
           idToToken := Map_set (idToToken t) (nextId t) tok,
           nextId := js_succ (nextId t)\<rparr>))"

definition trainFromText ::
  "(jsstring \<Rightarrow> jsstring) \<Rightarrow> tokenizer \<Rightarrow> jsstring \<Rightarrow> train_opts \<Rightarrow> tokenizer" where
  "trainFromText norm t text opts =
     (let cs0 = count_lines norm (lower t) (split_lines [] text) [];
          (cs, ms) = train_loop (nat (mergeOps opts)) (minFrequency opts) cs0 [];
          t1 = t\<lparr>counts := cs, merges := ms\<rparr>;
          tokenSet = collect_tokens (map fst cs) (foldl Set_add [] (specialTokens t1))
      in assign_ids tokenSet (initSpecials t1))"

subsection \<open>The constructor\<close>

record tokenizer_opts =
  opt_lower :: bool
  opt_specialTokens :: "jsstring list"
  opt_merges :: "(jsstring \<times> jsstring) list"
  opt_vocab :: "(jsstring \<times> jsval) list"

text \<open>The defaults of the constructor's options.\<close>

definition default_opts :: tokenizer_opts where
  "default_opts =
     \<lparr>opt_lower = True,
      opt_specialTokens =
        [ascii ''<PAD>'', ascii ''<UNK>'', ascii ''<BOS>'', ascii ''<EOS>'', ascii ''<SEP>''],
      opt_merges = [], opt_vocab = []\<rparr>"

text \<open>
  The entries of the initial vocabulary, \<open>Object.entries(vocab)\<close>: an entry whose id
  converts to \<open>NaN\<close> is skipped.
\<close>

fun load_initial_vocab ::
  "(jsstring \<Rightarrow> jsnum) \<Rightarrow> (jsstring \<times> jsval) list \<Rightarrow> tokenizer \<Rightarrow> tokenizer" where
  "load_initial_vocab s2n [] t = t"
| "load_initial_vocab s2n ((tok, idv) # es) t =
     (let n = Number s2n idv in
      if n \<noteq> NaN
      then load_initial_vocab s2n es
             (t\<lparr>tokenToId := Map_set (tokenToId t) tok (JNum n),
                idToToken := Map_set (idToToken t) n tok\<rparr>)
      else load_initial_vocab s2n es t)"

definition BPE_Tokenizer :: "(jsstring \<Rightarrow> jsnum) \<Rightarrow> tokenizer_opts \<Rightarrow> tokenizer" where
  "BPE_Tokenizer s2n opts =
     load_initial_vocab s2n (opt_vocab opts)
       (initSpecials
          \<lparr>lower = opt_lower opts, specialTokens = opt_specialTokens opts,
           tokenToId = [], idToToken = [], merges = opt_merges opts, counts = [],
           nextId = Fin 0\<rparr>)"

subsection \<open>\<open>save\<close> and \<open>load\<close>\<close>

text \<open>
  The artifact, as \<open>JSON.parse\<close> returns it: \<open>vocab\<close> is \<open>Object.entries(obj.vocab)\<close>,
  and \<open>merges\<close> is \<open>None\<close> when the field is absent or \<open>null\<close>. Writing the text to a
  file and reading it back are left out.
\<close>

record artifact =
  meta_lower :: bool
  meta_specialTokens :: "jsstring list"
  vocab :: "(jsstring \<times> jsval) list"
  art_merges :: "(jsstring \<times> jsstring) list option"

text \<open>
  What \<open>JSON.stringify\<close> followed by \<open>JSON.parse\<close> makes of a value: a number that is
  not finite becomes \<open>null\<close>, a property whose value is \<open>undefined\<close> is left out.
\<close>

fun json_value :: "jsval \<Rightarrow> jsval option" where
  "json_value (JNum (Fin i)) = Some (JNum (Fin i))"
| "json_value (JNum n) = Some JNull"
| "json_value JUndef = None"
| "json_value v = Some v"

text \<open>
  The order in which an object lists its properties: the keys that are array indices
  (canonical decimal strings below \<open>2^32 - 1\<close>) in ascending numeric order, then the
  other keys in insertion order.
\<close>

definition is_digit :: "code_unit \<Rightarrow> bool" where
  "is_digit c = (0x30 \<le> c \<and> c \<le> 0x39)"

definition dec_value :: "jsstring \<Rightarrow> int" where
  "dec_value s = foldl (\<lambda>acc c. acc * 10 + (uint c - 48)) 0 s"

definition array_index :: "jsstring \<Rightarrow> int option" where
  "array_index s =
     (if s \<noteq> [] \<and> list_all is_digit s \<and> (length s = 1 \<or> hd s \<noteq> 0x30)
         \<and> dec_value s < 4294967295
      then Some (dec_value s) else None)"

definition object_entries :: "(jsstring \<times> 'v) list \<Rightarrow> (jsstring \<times> 'v) list" where
  "object_entries es =
     sort_key (\<lambda>e. the (array_index (fst e))) (filter (\<lambda>e. array_index (fst e) \<noteq> None) es)
     @ filter (\<lambda>e. array_index (fst e) = None) es"

text \<open>\<open>Object.fromEntries(this.tokenToId)\<close>, through JSON: the entries of \<open>obj.vocab\<close>.\<close>

definition vocab_entries :: "(jsstring, jsval) jsmap \<Rightarrow> (jsstring \<times> jsval) list" where
  "vocab_entries t2i =
     object_entries (List.map_filter (\<lambda>(k, v). map_option (Pair k) (json_value v)) t2i)"

definition save :: "tokenizer \<Rightarrow> artifact" where
  "save t =
     \<lparr>meta_lower = lower t, meta_specialTokens = specialTokens t,
      vocab = vocab_entries (tokenToId t), art_merges = Some (merges t)\<rparr>"

text \<open>\<open>new Map(entries)\<close>: the entries are set in order.\<close>

definition Map_from :: "('k \<times> 'v) list \<Rightarrow> ('k, 'v) jsmap" where
  "Map_from es = foldl (\<lambda>m (k, v). Map_set m k v) [] es"

text \<open>\<open>Math.max(...ns)\<close> and \<open>n + 1\<close>.\<close>

fun js_max2 :: "jsnum \<Rightarrow> jsnum \<Rightarrow> jsnum" where
  "js_max2 NaN n = NaN"
| "js_max2 n NaN = NaN"
| "js_max2 PosInf n = PosInf"
| "js_max2 n PosInf = PosInf"
| "js_max2 NegInf n = n"
| "js_max2 n NegInf = n"
| "js_max2 (Fin i) (Fin j) = Fin (max i j)"

definition Math_max :: "jsnum list \<Rightarrow> jsnum" where
  "Math_max ns = foldl js_max2 NegInf ns"

definition load :: "(jsstring \<Rightarrow> jsnum) \<Rightarrow> tokenizer \<Rightarrow> artifact \<Rightarrow> tokenizer" where
  "load s2n t obj =
     (let t1 = initSpecials (t\<lparr>lower := meta_lower obj, specialTokens := meta_specialTokens obj\<rparr>);
          t2i = Map_from (vocab obj);
          i2t = Map_from (map (\<lambda>(tok, idv). (Number s2n idv, tok)) t2i)
      in t1\<lparr>tokenToId := t2i, idToToken := i2t,
             nextId := js_succ (Math_max (map fst i2t)),
             merges := (case art_merges obj of None \<Rightarrow> [] | Some ms \<Rightarrow> ms)\<rparr>)"

subsection \<open>\<open>tokenize\<close>, \<open>encode\<close> and \<open>decode\<close>\<close>

text \<open>
  \<open>src.split(/(\s+)/)\<close>: the pieces between the maximal runs of white space and the runs
  themselves, in order. \<open>insep\<close> says that \<open>acc\<close> is a run of white space.
\<close>

fun split_keep_ws :: "bool \<Rightarrow> jsstring \<Rightarrow> jsstring \<Rightarrow> jsstring list" where
  "split_keep_ws insep acc [] = (if insep then [acc, []] else [acc])"
| "split_keep_ws insep acc (c # cs) =
     (if is_space c
      then (if insep then split_keep_ws True (acc @ [c]) cs
            else acc # split_keep_ws True [c] cs)
      else (if insep then acc # split_keep_ws False [c] cs
            else split_keep_ws False (acc @ [c]) cs))"

text \<open>\<open>/^\s+$/.test(w)\<close>.\<close>

definition all_space :: "jsstring \<Rightarrow> bool" where
  "all_space w = (w \<noteq> [] \<and> list_all is_space w)"

fun tokenize_words :: "tokenizer \<Rightarrow> jsstring list \<Rightarrow> jsstring list \<Rightarrow> jsstring list" where
  "tokenize_words t [] out = out"
| "tokenize_words t (w # ws) out =
     (if all_space w then tokenize_words t ws (out @ [w])
      else if length w = 0 then tokenize_words t ws out
      else tokenize_words t ws (out @ applyBPEToWord t w))"

definition tokenize :: "(jsstring \<Rightarrow> jsstring) \<Rightarrow> tokenizer \<Rightarrow> jsstring \<Rightarrow> jsstring list" where
  "tokenize norm t text =
     (let src = (if lower t then norm text else text);
          words = split_keep_ws False [] src
      in tokenize_words t words [])"

record encode_opts =
  addBosEos :: bool
  keepSpaces :: bool

text \<open>\<open>this.tokenToId.get(k)\<close>, and \<open>x ?? y\<close>.\<close>

definition id_of :: "tokenizer \<Rightarrow> jsstring \<Rightarrow> jsval" where
  "id_of t k = (case Map_get (tokenToId t) k of None \<Rightarrow> JUndef | Some v \<Rightarrow> v)"

definition nullish :: "jsval \<Rightarrow> jsval \<Rightarrow> jsval" where
  "nullish x y = (if x = JUndef \<or> x = JNull then y else x)"

text \<open>The decimal digits of a length, for \<open>'<SPACE>' + p.length\<close>.\<close>

fun dec_string :: "nat \<Rightarrow> jsstring" where
  "dec_string n =
     (if n < 10 then [of_nat (48 + n)] else dec_string (n div 10) @ [of_nat (48 + n mod 10)])"

declare dec_string.simps [simp del]

fun encode_pieces :: "tokenizer \<Rightarrow> bool \<Rightarrow> jsstring list \<Rightarrow> jsval list \<Rightarrow> jsval list" where
  "encode_pieces t keep [] ids = ids"
| "encode_pieces t keep (p # ps) ids =
     (if all_space p
      then (if keep
            then (let key = ascii ''<SPACE>'' @ dec_string (length p)
                  in encode_pieces t keep ps
                       (ids @ [nullish (id_of t key) (id_of t (ascii ''<UNK>''))]))
            else encode_pieces t keep ps ids)
      else (let idv = id_of t p
            in encode_pieces t keep ps (ids @ [nullish idv (id_of t (ascii ''<UNK>''))])))"

definition encode ::
  "(jsstring \<Rightarrow> jsstring) \<Rightarrow> tokenizer \<Rightarrow> jsstring \<Rightarrow> encode_opts \<Rightarrow> jsval list" where
  "encode norm t text opts =
     (let pieces = tokenize norm t text;
          ids0 = (if addBosEos opts then [id_of t (ascii ''<BOS>'')] else []);
          ids1 = encode_pieces t (keepSpaces opts) pieces ids0
      in if addBosEos opts then ids1 @ [id_of t (ascii ''<EOS>'')] else ids1)"

text \<open>The first loop of \<open>decode\<close>: the tokens of the ids, special tokens skipped on request.\<close>

fun decode_parts ::
  "(jsstring \<Rightarrow> jsnum) \<Rightarrow> tokenizer \<Rightarrow> bool \<Rightarrow> jsval list \<Rightarrow> jsstring list \<Rightarrow> jsstring list" where
  "decode_parts s2n t skip [] parts = parts"
| "decode_parts s2n t skip (idRaw # ids) parts =
     (let idn = Number s2n idRaw;
          tok = (case Map_get (idToToken t) idn of None \<Rightarrow> ascii ''<UNK>'' | Some s \<Rightarrow> s)
      in if skip \<and> tok \<in> set (specialTokens t) then decode_parts s2n t skip ids parts
         else decode_parts s2n t skip ids (parts @ [tok]))"

text \<open>The second loop: a token that starts with the marker loses its first code unit.\<close>

fun decode_join :: "jsstring list \<Rightarrow> jsstring \<Rightarrow> jsstring" where
  "decode_join [] out = out"
| "decode_join (p # ps) out =
     (if p \<noteq> [] \<and> hd p = WORD_START then decode_join ps (out @ tl p)
      else decode_join ps (out @ p))"

definition decode ::
  "(jsstring \<Rightarrow> jsnum) \<Rightarrow> tokenizer \<Rightarrow> jsval list \<Rightarrow> bool \<Rightarrow> jsstring" where
  "decode s2n t ids skipSpecials = decode_join (decode_parts s2n t skipSpecials ids []) []"

section \<open>Merging keeps the characters and terminates\<close>

lemma concat_Array_from: "concat (Array_from w) = w"
  by (induction w rule: Array_from.induct) auto

lemma Array_from_Nil_iff: "Array_from w = [] \<longleftrightarrow> w = []"
  by (induction w rule: Array_from.induct) auto

lemma length_wordToChars: "length (wordToChars w) = length (Array_from w)"
  by (cases "Array_from w") (auto simp: wordToChars_def)

lemma concat_wordToChars: "w \<noteq> [] \<Longrightarrow> concat (wordToChars w) = WORD_START # w"
proof -
  assume "w \<noteq> []"
  then obtain c cs where ac: "Array_from w = c # cs"
    by (cases "Array_from w") (auto simp: Array_from_Nil_iff)
  have "concat (c # cs) = w" using concat_Array_from[of w] ac by simp
  then show ?thesis using ac by (simp add: wordToChars_def)
qed

lemma wordToChars_Nil_iff: "wordToChars w = [] \<longleftrightarrow> w = []"
  using length_wordToChars[of w] Array_from_Nil_iff[of w] by auto

lemma concat_splice2:
  "Suc pos < length pieces \<Longrightarrow>
   concat (splice2 pieces pos (pieces ! pos @ pieces ! Suc pos)) = concat pieces"
proof -
  assume r: "Suc pos < length pieces"
  have "pieces = take pos pieces @ pieces ! pos # pieces ! (pos + 1) # drop (pos + 2) pieces"
    using r by (simp add: Cons_nth_drop_Suc)
  then have "concat pieces =
      concat (take pos pieces @ pieces ! pos # pieces ! (pos + 1) # drop (pos + 2) pieces)"
    by simp
  then show ?thesis by (simp add: splice2_def)
qed

lemma bpe_loop_unfold:
  "bpe_iter mm pieces = (pieces', d) \<Longrightarrow>
   bpe_loop mm pieces = (if d then pieces' else bpe_loop mm pieces')"
  by (subst bpe_loop.simps) simp

lemma bpe_merge_count_unfold:
  "bpe_iter mm pieces = (pieces', d) \<Longrightarrow>
   bpe_merge_count mm pieces = (if d then 0 else Suc (bpe_merge_count mm pieces'))"
  by (subst bpe_merge_count.simps) simp

lemma bpe_iter_cases:
  obtains (stop) "bpe_iter mm pieces = (pieces, True)"
  | (merge) pos rank where "pos + 1 < length pieces"
      "scan_pairs mm pieces 0 (- 1, None, True) = (int pos, rank, False)"
      "bpe_iter mm pieces = (splice2 pieces pos (pieces ! pos @ pieces ! (pos + 1)), False)"
proof -
  obtain bestPos bestRank d where
    sc: "scan_pairs mm pieces 0 (- 1, None, True) = (bestPos, bestRank, d)"
    by (cases "scan_pairs mm pieces 0 (- 1, None, True)") auto
  show thesis
  proof (cases d)
    case True
    with sc have "bpe_iter mm pieces = (pieces, True)" by (simp add: bpe_iter_def)
    then show thesis by (rule stop)
  next
    case False
    with scan_pairs_range[OF sc] have rng: "0 \<le> bestPos" "nat bestPos + 1 < length pieces"
      by auto
    from rng(1) have bp: "bestPos = int (nat bestPos)" by simp
    show thesis
    proof (rule merge[of "nat bestPos" bestRank])
      show "nat bestPos + 1 < length pieces" by (rule rng(2))
      show "scan_pairs mm pieces 0 (- 1, None, True) = (int (nat bestPos), bestRank, False)"
        using sc False bp by simp
      show "bpe_iter mm pieces =
        (splice2 pieces (nat bestPos) (pieces ! nat bestPos @ pieces ! (nat bestPos + 1)), False)"
        using sc False rng(1) by (simp add: bpe_iter_def)
    qed
  qed
qed

lemma bpe_iter_concat: "concat (fst (bpe_iter mm pieces)) = concat pieces"
  by (cases mm pieces rule: bpe_iter_cases) (simp_all add: concat_splice2)

lemma bpe_iter_done: "bpe_iter mm pieces = (pieces', True) \<Longrightarrow> pieces' = pieces"
  by (cases mm pieces rule: bpe_iter_cases) simp_all

lemma bpe_loop_concat: "concat (bpe_loop mm pieces) = concat pieces"
proof (induction mm pieces rule: bpe_loop.induct)
  case (1 mm pieces)
  obtain pieces' d where it: "bpe_iter mm pieces = (pieces', d)"
    by (cases "bpe_iter mm pieces") auto
  have c: "concat pieces' = concat pieces"
    using bpe_iter_concat[of mm pieces] it by simp
  show ?case
  proof (cases d)
    case True
    then show ?thesis using bpe_loop_unfold[OF it] c by simp
  next
    case False
    from "1.IH"[OF it[symmetric] False] show ?thesis using bpe_loop_unfold[OF it] False c by simp
  qed
qed

lemma bpe_loop_length:
  "length (bpe_loop mm pieces) + bpe_merge_count mm pieces = length pieces"
proof (induction mm pieces rule: bpe_loop.induct)
  case (1 mm pieces)
  obtain pieces' d where it: "bpe_iter mm pieces = (pieces', d)"
    by (cases "bpe_iter mm pieces") auto
  show ?case
  proof (cases d)
    case True
    then show ?thesis
      using bpe_loop_unfold[OF it] bpe_merge_count_unfold[OF it] bpe_iter_done[of mm pieces pieces'] it
      by simp
  next
    case False
    from "1.IH"[OF it[symmetric] False] bpe_iter_length[of mm pieces pieces'] it False
    show ?thesis using bpe_loop_unfold[OF it] bpe_merge_count_unfold[OF it] by simp
  qed
qed

lemma bpe_loop_Nil_iff: "bpe_loop mm pieces = [] \<longleftrightarrow> pieces = []"
proof (induction mm pieces rule: bpe_loop.induct)
  case (1 mm pieces)
  obtain pieces' d where it: "bpe_iter mm pieces = (pieces', d)"
    by (cases "bpe_iter mm pieces") auto
  show ?case
  proof (cases d)
    case True
    then show ?thesis using bpe_loop_unfold[OF it] bpe_iter_done[of mm pieces pieces'] it by simp
  next
    case False
    have "pieces \<noteq> []" using bpe_iter_length[of mm pieces pieces'] it False by auto
    moreover have "pieces' \<noteq> []"
      using it False by (cases mm pieces rule: bpe_iter_cases) (auto simp: splice2_def)
    ultimately show ?thesis
      using "1.IH"[OF it[symmetric] False] bpe_loop_unfold[OF it] False by simp
  qed
qed

text \<open>Example data: a tokenizer whose merge table is \<open>[('\<dots>a', 'b')]\<close>, and the word \<open>ab\<close>.\<close>

definition ex_tokenizer :: tokenizer where
  "ex_tokenizer =
     \<lparr>lower = False, specialTokens = [], tokenToId = [], idToToken = [],
      merges = [(WORD_START # ascii ''a'', ascii ''b'')], counts = [], nextId = Fin 0\<rparr>"

lemma concat_applyBPEToWord:
  "word \<noteq> [] \<Longrightarrow> concat (applyBPEToWord t word) = WORD_START # word"
  by (simp add: applyBPEToWord_def Let_def bpe_loop_concat concat_wordToChars
      wordToChars_Nil_iff)

lemma concat_tokenize_words:
  "concat (tokenize_words t ws out) =
     concat out @ concat (map (\<lambda>w. if all_space w \<or> w = [] then w else WORD_START # w) ws)"
proof (induction ws arbitrary: out)
  case Nil
  show ?case by simp
next
  case (Cons w ws)
  show ?case
  proof (cases "all_space w \<or> w = []")
    case True
    then show ?thesis using Cons.IH by auto
  next
    case False
    then show ?thesis using Cons.IH concat_applyBPEToWord[of w t] by simp
  qed
qed

text \<open>
  C9. For every non-empty word and every merge table, the pieces that
  \<open>_applyBPEToWord\<close> returns, concatenated in order, are the word-start marker followed
  by the word's code units: merging never alters the character content. So the pieces
  of \<open>tokenize\<close>, concatenated, are the (normalised) text with the marker put before every
  word: its runs of white space and the characters of its words are all there.
\<close>

theorem applyBPEToWord_concat:
  "(word \<noteq> [] \<longrightarrow> concat (applyBPEToWord t word) = WORD_START # word)
   \<and> concat (tokenize norm t text) =
       concat (map (\<lambda>w. if all_space w \<or> w = [] then w else WORD_START # w)
         (split_keep_ws False [] (if lower t then norm text else text)))"
  by (simp add: concat_applyBPEToWord concat_tokenize_words tokenize_def Let_def)

theorem applyBPEToWord_concat_witness:
  "ascii ''ab'' \<noteq> []
   \<and> concat (applyBPEToWord ex_tokenizer (ascii ''ab'')) = WORD_START # ascii ''ab''
   \<and> applyBPEToWord ex_tokenizer (ascii ''ab'') = [WORD_START # ascii ''ab'']
   \<and> concat (tokenize (\<lambda>s. s) ex_tokenizer (ascii ''ab  c''))
       = WORD_START # ascii ''ab  '' @ WORD_START # ascii ''c''"
proof -
  have h: "ascii ''ab'' \<noteq> []" by (simp add: ascii_def)
  have e: "applyBPEToWord ex_tokenizer (ascii ''ab'') = [WORD_START # ascii ''ab'']"
    by code_simp
  have lo: "lower ex_tokenizer = False" by (simp add: ex_tokenizer_def)
  have sp: "split_keep_ws False [] (ascii ''ab  c'') = [ascii ''ab'', ascii ''  '', ascii ''c'']"
    by code_simp
  have a: "\<not> all_space (ascii ''ab'')" "all_space (ascii ''  '')" "\<not> all_space (ascii ''c'')"
    by code_simp+
  note th = applyBPEToWord_concat[of "ascii ''ab''" ex_tokenizer "\<lambda>s. s" "ascii ''ab  c''"]
  from th h have c1: "concat (applyBPEToWord ex_tokenizer (ascii ''ab'')) = WORD_START # ascii ''ab''"
    by blast
  from th lo sp a have c2: "concat (tokenize (\<lambda>s. s) ex_tokenizer (ascii ''ab  c''))
       = WORD_START # ascii ''ab  '' @ WORD_START # ascii ''c''"
    by (simp add: ascii_def)
  from h e c1 c2 show ?thesis by simp
qed

text \<open>
  C10. \<open>_applyBPEToWord\<close> terminates on every word and every merge table (the loop
  \<open>bpe_loop\<close> is a total function, by the measure "number of pieces"). Each iteration of
  the \<open>while\<close> loop either leaves the pieces as they are and exits, or makes the piece
  list one shorter and goes on; so the number of merges plus the number of pieces
  returned is the number of code points of the word, and there are at most that number
  minus one merges.
\<close>

theorem applyBPEToWord_merge_bound:
  "applyBPE_merge_count t word \<le> length (Array_from word) - 1
   \<and> length (applyBPEToWord t word) + applyBPE_merge_count t word = length (Array_from word)
   \<and> (\<forall>mm pieces pieces' d. bpe_iter mm pieces = (pieces', d) \<longrightarrow>
        (if d then pieces' = pieces else Suc (length pieces') = length pieces))"
proof (intro conjI allI impI)
  show len: "length (applyBPEToWord t word) + applyBPE_merge_count t word
      = length (Array_from word)"
    using bpe_loop_length[of "build_mergeMap (merges t) 0 []" "wordToChars word"]
    using wordToChars_Nil_iff[of word] Array_from_Nil_iff[of word]
    by (auto simp: applyBPEToWord_def applyBPE_merge_count_def Let_def length_wordToChars)
  show "applyBPE_merge_count t word \<le> length (Array_from word) - 1"
  proof (cases "wordToChars word = []")
    case True
    then show ?thesis by (simp add: applyBPE_merge_count_def)
  next
    case False
    then have "applyBPEToWord t word \<noteq> []"
      by (simp add: applyBPEToWord_def Let_def bpe_loop_Nil_iff)
    then have "1 \<le> length (applyBPEToWord t word)" by (cases "applyBPEToWord t word") auto
    with len show ?thesis by linarith
  qed
next
  fix mm pieces pieces' d
  assume "bpe_iter mm pieces = (pieces', d)"
  then show "if d then pieces' = pieces else Suc (length pieces') = length pieces"
    using bpe_iter_done[of mm pieces pieces'] bpe_iter_length[of mm pieces pieces']
    by (cases d) auto
qed

theorem applyBPEToWord_merge_bound_witness:
  "applyBPE_merge_count ex_tokenizer (ascii ''ab'') = 1
   \<and> length (Array_from (ascii ''ab'')) - 1 = 1
   \<and> applyBPE_merge_count ex_tokenizer (ascii ''ab'') \<le> length (Array_from (ascii ''ab'')) - 1
   \<and> length (applyBPEToWord ex_tokenizer (ascii ''ab'')) = 1"
proof -
  have e: "applyBPE_merge_count ex_tokenizer (ascii ''ab'') = 1" by code_simp
  have l: "length (Array_from (ascii ''ab'')) = 2" by code_simp
  show ?thesis using e l applyBPEToWord_merge_bound[of ex_tokenizer "ascii ''ab''"] by simp
qed



section \<open>Which pair a step merges\<close>

lemma map_of_Map_set: "map_of (Map_set m k v) = (map_of m)(k \<mapsto> v)"
  by (induction m) (auto simp: fun_eq_iff)

lemma Map_get_Map_set: "Map_get (Map_set m k v) k' = (if k' = k then Some v else Map_get m k')"
  by (simp add: Map_get_def map_of_Map_set)

lemma build_mergeMap_snoc:
  "build_mergeMap (ms @ [(a, b)]) i mm = Map_set (build_mergeMap ms i mm) (pair_key a b) (i + length ms)"
  by (induction ms i mm rule: build_mergeMap.induct) auto

text \<open>The key under which a rule is stored in the lookup table.\<close>

definition rule_key :: "jsstring \<times> jsstring \<Rightarrow> jsstring" where
  "rule_key r = pair_key (fst r) (snd r)"

lemma Map_get_build_snoc:
  "Map_get (build_mergeMap (ms @ [x]) 0 []) k =
     (if k = rule_key x then Some (length ms) else Map_get (build_mergeMap ms 0 []) k)"
  by (cases x) (simp add: build_mergeMap_snoc Map_get_Map_set rule_key_def)

lemma build_mergeMap_last:
  "Map_get (build_mergeMap ms 0 []) k = Some r \<longleftrightarrow>
     r < length ms \<and> rule_key (ms ! r) = k \<and> (\<forall>j. r < j \<and> j < length ms \<longrightarrow> rule_key (ms ! j) \<noteq> k)"
proof (induction ms arbitrary: r rule: rev_induct)
  case Nil
  then show ?case by (simp add: Map_get_def)
next
  case (snoc x ms)
  let ?n = "length ms"
  show ?case
  proof (cases "k = rule_key x")
    case True
    have "r = ?n" if "r < Suc ?n" "\<forall>j. r < j \<and> j < Suc ?n \<longrightarrow> rule_key ((ms @ [x]) ! j) \<noteq> k"
    proof (rule ccontr)
      assume "r \<noteq> ?n"
      with that(1) have "r < ?n" by simp
      with that(2)[rule_format, of ?n] have "rule_key ((ms @ [x]) ! ?n) \<noteq> k" by simp
      with True show False by simp
    qed
    moreover have "rule_key ((ms @ [x]) ! ?n) = k" using True by simp
    ultimately show ?thesis
      using True by (auto simp: Map_get_build_snoc)
  next
    case False
    have lt: "r < ?n" if "r < Suc ?n" "rule_key ((ms @ [x]) ! r) = k"
    proof (rule ccontr)
      assume "\<not> r < ?n"
      with that(1) have "r = ?n" by simp
      with that(2) False show False by simp
    qed
    have all: "(\<forall>j. r < j \<and> j < Suc ?n \<longrightarrow> rule_key ((ms @ [x]) ! j) \<noteq> k)
        \<longleftrightarrow> (\<forall>j. r < j \<and> j < ?n \<longrightarrow> rule_key (ms ! j) \<noteq> k)"
    proof (intro iffI allI impI)
      fix j assume a: "\<forall>j. r < j \<and> j < Suc ?n \<longrightarrow> rule_key ((ms @ [x]) ! j) \<noteq> k" and b: "r < j \<and> j < ?n"
      from a[rule_format, of j] b have "rule_key ((ms @ [x]) ! j) \<noteq> k" by simp
      with b show "rule_key (ms ! j) \<noteq> k" by (simp add: nth_append)
    next
      fix j assume a: "\<forall>j. r < j \<and> j < ?n \<longrightarrow> rule_key (ms ! j) \<noteq> k" and b: "r < j \<and> j < Suc ?n"
      show "rule_key ((ms @ [x]) ! j) \<noteq> k"
      proof (cases "j = ?n")
        case True
        then show ?thesis using False by simp
      next
        case False
        with b have "j < ?n" by simp
        with a[rule_format, of j] b show ?thesis by (simp add: nth_append)
      qed
    qed
    show ?thesis
    proof (cases "r < ?n")
      case True
      then show ?thesis
        using False snoc.IH[of r] all by (simp add: Map_get_build_snoc nth_append)
    next
      case nlt: False
      then have "Map_get (build_mergeMap ms 0 []) k \<noteq> Some r" using snoc.IH[of r] by simp
      then show ?thesis using False nlt lt by (auto simp: Map_get_build_snoc)
    qed
  qed
qed


lemma pair_key_inject:
  assumes "pair_key a b = pair_key p q" "SPACE \<notin> set p" "SPACE \<notin> set q"
  shows "a = p \<and> b = q"
proof -
  from assms(1) have e: "a @ SPACE # b = p @ SPACE # q" by (simp add: pair_key_def)
  then obtain us where "(a = p @ us \<and> us @ SPACE # b = SPACE # q) \<or> (a @ us = p \<and> SPACE # b = us @ SPACE # q)"
    by (auto simp: append_eq_append_conv2)
  then show ?thesis
  proof
    assume h: "a = p @ us \<and> us @ SPACE # b = SPACE # q"
    show ?thesis
    proof (cases us)
      case Nil
      with h show ?thesis by simp
    next
      case (Cons u us')
      with h have "q = us' @ SPACE # b" by simp
      with assms(3) show ?thesis by simp
    qed
  next
    assume h: "a @ us = p \<and> SPACE # b = us @ SPACE # q"
    show ?thesis
    proof (cases us)
      case Nil
      with h show ?thesis by simp
    next
      case (Cons u us')
      with h have "u = SPACE" by simp
      with h Cons assms(2) show ?thesis by auto
    qed
  qed
qed


text \<open>
  The rank the lookup table gives the adjacent pair at position \<open>j\<close>, and what the scan
  state says after the positions below \<open>i\<close>: \<open>done\<close> and no pair found, or the position
  and rank of the pair with the least rank, the leftmost among equals.
\<close>

definition pair_rank :: "(jsstring, nat) jsmap \<Rightarrow> jsstring list \<Rightarrow> nat \<Rightarrow> nat option" where
  "pair_rank mm pieces j = Map_get mm (pair_key (pieces ! j) (pieces ! Suc j))"

definition scan_best ::
  "(jsstring, nat) jsmap \<Rightarrow> jsstring list \<Rightarrow> nat \<Rightarrow> int \<times> nat option \<times> bool \<Rightarrow> bool" where
  "scan_best mm pieces i st =
     (case st of (bp, br, d) \<Rightarrow>
        if d then bp = - 1 \<and> br = None \<and> (\<forall>j<i. pair_rank mm pieces j = None)
        else \<exists>k r. bp = int k \<and> k < i \<and> br = Some r \<and> pair_rank mm pieces k = Some r
               \<and> (\<forall>j<i. \<forall>r'. pair_rank mm pieces j = Some r' \<longrightarrow> r < r' \<or> (r = r' \<and> k \<le> j)))"

lemma scan_best_step:
  assumes "scan_best mm pieces i (bp, br, d)"
  shows "scan_best mm pieces (Suc i)
     (case pair_rank mm pieces i of
        None \<Rightarrow> (bp, br, d)
      | Some rank \<Rightarrow> if rank_less rank br then (int i, Some rank, False) else (bp, br, d))"
proof (cases "pair_rank mm pieces i")
  case None
  with assms show ?thesis
    by (auto simp: scan_best_def less_Suc_eq)
next
  case (Some rk)
  show ?thesis
  proof (cases d)
    case True
    with assms Some show ?thesis
      by (auto simp: scan_best_def less_Suc_eq rank_less_def)
  next
    case False
    with assms obtain k r where kr: "bp = int k" "k < i" "br = Some r" "pair_rank mm pieces k = Some r"
      "\<forall>j<i. \<forall>r'. pair_rank mm pieces j = Some r' \<longrightarrow> r < r' \<or> (r = r' \<and> k \<le> j)"
      by (auto simp: scan_best_def)
    show ?thesis
    proof (cases "rk < r")
      case True
      have "\<forall>j<Suc i. \<forall>r'. pair_rank mm pieces j = Some r' \<longrightarrow> rk < r' \<or> (rk = r' \<and> i \<le> j)"
      proof (intro allI impI)
        fix j r' assume j: "j < Suc i" and r': "pair_rank mm pieces j = Some r'"
        show "rk < r' \<or> (rk = r' \<and> i \<le> j)"
        proof (cases "j = i")
          case True
          with r' Some show ?thesis by simp
        next
          case False
          with j have "j < i" by simp
          with kr(5) r' have "r < r' \<or> (r = r' \<and> k \<le> j)" by blast
          with \<open>rk < r\<close> show ?thesis by auto
        qed
      qed
      with Some True kr(3) show ?thesis
        by (simp add: scan_best_def rank_less_def)
    next
      case nlt: False
      have "\<forall>j<Suc i. \<forall>r'. pair_rank mm pieces j = Some r' \<longrightarrow> r < r' \<or> (r = r' \<and> k \<le> j)"
      proof (intro allI impI)
        fix j r' assume j: "j < Suc i" and r': "pair_rank mm pieces j = Some r'"
        show "r < r' \<or> (r = r' \<and> k \<le> j)"
        proof (cases "j = i")
          case True
          with r' Some have "r' = rk" by simp
          with nlt kr(2) True show ?thesis by auto
        next
          case False
          with j have "j < i" by simp
          with kr(5) r' show ?thesis by blast
        qed
      qed
      with Some nlt kr False show ?thesis
        by (auto simp: scan_best_def rank_less_def)
    qed
  qed
qed

lemma scan_pairs_best:
  "scan_best mm pieces (length pre) st \<Longrightarrow> pieces = pre @ ps \<Longrightarrow> ps \<noteq> [] \<or> pre = [] \<Longrightarrow>
   scan_best mm pieces (length pieces - 1) (scan_pairs mm ps (length pre) st)"
proof (induction ps arbitrary: pre st)
  case Nil
  then show ?case by simp
next
  case (Cons p ps')
  show ?case
  proof (cases ps')
    case Nil
    with Cons.prems show ?thesis by simp
  next
    case (Cons q rest)
    obtain bp br d where st: "st = (bp, br, d)" by (cases st)
    let ?st' = "case pair_rank mm pieces (length pre) of
        None \<Rightarrow> (bp, br, d)
      | Some rank \<Rightarrow> if rank_less rank br then (int (length pre), Some rank, False) else (bp, br, d)"
    have pq: "pieces ! length pre = p" "pieces ! Suc (length pre) = q"
      using Cons.prems(2) Cons by (simp_all add: nth_append)
    have step: "scan_pairs mm (p # ps') (length pre) st = scan_pairs mm ps' (length (pre @ [p])) ?st'"
      using Cons st pq by (simp add: pair_rank_def)
    have best: "scan_best mm pieces (length (pre @ [p])) ?st'"
      using scan_best_step[of mm pieces "length pre" bp br d] Cons.prems(1) st by simp
    have "scan_best mm pieces (length pieces - 1) (scan_pairs mm ps' (length (pre @ [p])) ?st')"
      by (rule Cons.IH[OF best]) (use Cons.prems(2) Cons in simp_all)
    with step show ?thesis by simp
  qed
qed

lemma scan_pairs_characterised:
  "scan_best mm pieces (length pieces - 1) (scan_pairs mm pieces 0 (- 1, None, True))"
  using scan_pairs_best[of mm pieces "[]" "(- 1, None, True)" pieces]
  by (simp add: scan_best_def)


lemma rule_key_eq_iff:
  assumes "SPACE \<notin> set p" "SPACE \<notin> set q"
  shows "rule_key x = pair_key p q \<longleftrightarrow> x = (p, q)"
proof
  assume "rule_key x = pair_key p q"
  then have "pair_key (fst x) (snd x) = pair_key p q" by (simp add: rule_key_def)
  from pair_key_inject[OF this assms] show "x = (p, q)" by (cases x) simp
next
  assume "x = (p, q)"
  then show "rule_key x = pair_key p q" by (simp add: rule_key_def)
qed

lemma mergeMap_rank:
  assumes "distinct ms" "SPACE \<notin> set p" "SPACE \<notin> set q"
  shows "Map_get (build_mergeMap ms 0 []) (pair_key p q) = Some r \<longleftrightarrow>
           r < length ms \<and> ms ! r = (p, q)"
proof -
  have "(\<forall>j. r < j \<and> j < length ms \<longrightarrow> ms ! j \<noteq> (p, q))" if "r < length ms" "ms ! r = (p, q)"
  proof (intro allI impI notI)
    fix j assume j: "r < j \<and> j < length ms" and "ms ! j = (p, q)"
    with that have "ms ! r = ms ! j" by simp
    with nth_eq_iff_index_eq[OF assms(1), of r j] that(1) j show False by simp
  qed
  then show ?thesis
    unfolding build_mergeMap_last rule_key_eq_iff[OF assms(2,3)] by blast
qed

lemma mergeMap_no_rank:
  assumes "distinct ms" "SPACE \<notin> set p" "SPACE \<notin> set q"
  shows "Map_get (build_mergeMap ms 0 []) (pair_key p q) = None \<longleftrightarrow> (p, q) \<notin> set ms"
proof -
  have "(\<exists>r. Map_get (build_mergeMap ms 0 []) (pair_key p q) = Some r) \<longleftrightarrow> (p, q) \<in> set ms"
    unfolding mergeMap_rank[OF assms] by (auto simp: in_set_conv_nth)
  then show ?thesis by (cases "Map_get (build_mergeMap ms 0 []) (pair_key p q)") auto
qed

lemma bpe_iter_selects:
  assumes dist: "distinct ms" and nosp: "SPACE \<notin> set (concat pieces)"
  shows "case bpe_iter (build_mergeMap ms 0 []) pieces of
      (pieces', d) \<Rightarrow>
        if d then pieces' = pieces
          \<and> (\<forall>j. Suc j < length pieces \<longrightarrow> (pieces ! j, pieces ! Suc j) \<notin> set ms)
        else \<exists>i r. Suc i < length pieces \<and> r < length ms \<and> ms ! r = (pieces ! i, pieces ! Suc i)
          \<and> (\<forall>j r'. Suc j < length pieces \<and> r' < length ms \<and> ms ! r' = (pieces ! j, pieces ! Suc j)
                \<longrightarrow> r < r' \<or> (r = r' \<and> i \<le> j))
          \<and> pieces' = take i pieces @ [pieces ! i @ pieces ! Suc i] @ drop (i + 2) pieces"
proof -
  let ?mm = "build_mergeMap ms 0 []"
  have sp: "SPACE \<notin> set (pieces ! j)" if "j < length pieces" for j
  proof -
    have "pieces ! j \<in> set pieces" using that by simp
    with nosp show ?thesis by auto
  qed
  have rank: "pair_rank ?mm pieces j = Some r \<longleftrightarrow> r < length ms \<and> ms ! r = (pieces ! j, pieces ! Suc j)"
    if "Suc j < length pieces" for j r
    unfolding pair_rank_def using mergeMap_rank[OF dist sp sp, of j "Suc j" r] that by simp
  have norank: "pair_rank ?mm pieces j = None \<longleftrightarrow> (pieces ! j, pieces ! Suc j) \<notin> set ms"
    if "Suc j < length pieces" for j
    unfolding pair_rank_def using mergeMap_no_rank[OF dist sp sp, of j "Suc j"] that by simp
  have best: "scan_best ?mm pieces (length pieces - 1) (scan_pairs ?mm pieces 0 (- 1, None, True))"
    by (rule scan_pairs_characterised)
  show ?thesis
  proof (cases ?mm pieces rule: bpe_iter_cases)
    case stop
    then have "snd (scan_pairs ?mm pieces 0 (- 1, None, True)) = (None, True)
        \<or> snd (snd (scan_pairs ?mm pieces 0 (- 1, None, True)))"
      by (auto simp: bpe_iter_def split: prod.splits if_splits)
    then have d: "snd (snd (scan_pairs ?mm pieces 0 (- 1, None, True)))" by auto
    have "\<forall>j<length pieces - 1. pair_rank ?mm pieces j = None"
      using best d by (auto simp: scan_best_def split: prod.splits)
    then have "\<forall>j. Suc j < length pieces \<longrightarrow> (pieces ! j, pieces ! Suc j) \<notin> set ms"
      using norank by (simp add: less_diff_conv)
    with stop show ?thesis by simp
  next
    case (merge pos rank)
    from best merge(2) obtain r where r: "rank = Some r" "pair_rank ?mm pieces pos = Some r"
      "\<forall>j<length pieces - 1. \<forall>r'. pair_rank ?mm pieces j = Some r' \<longrightarrow> r < r' \<or> (r = r' \<and> pos \<le> j)"
      by (auto simp: scan_best_def)
    have pos: "Suc pos < length pieces" using merge(1) by simp
    from r(2) rank[OF pos] have rr: "r < length ms" "ms ! r = (pieces ! pos, pieces ! Suc pos)"
      by simp_all
    have least: "\<forall>j r'. Suc j < length pieces \<and> r' < length ms \<and> ms ! r' = (pieces ! j, pieces ! Suc j)
                \<longrightarrow> r < r' \<or> (r = r' \<and> pos \<le> j)"
    proof (intro allI impI)
      fix j r' assume a: "Suc j < length pieces \<and> r' < length ms \<and> ms ! r' = (pieces ! j, pieces ! Suc j)"
      then have "pair_rank ?mm pieces j = Some r'" using rank[of j r'] by simp
      moreover from a have "j < length pieces - 1" by (simp add: less_diff_conv)
      ultimately show "r < r' \<or> (r = r' \<and> pos \<le> j)" using r(3) by blast
    qed
    have "\<exists>i r. Suc i < length pieces \<and> r < length ms \<and> ms ! r = (pieces ! i, pieces ! Suc i)
          \<and> (\<forall>j r'. Suc j < length pieces \<and> r' < length ms \<and> ms ! r' = (pieces ! j, pieces ! Suc j)
                \<longrightarrow> r < r' \<or> (r = r' \<and> i \<le> j))
          \<and> splice2 pieces pos (pieces ! pos @ pieces ! (pos + 1))
               = take i pieces @ [pieces ! i @ pieces ! Suc i] @ drop (i + 2) pieces"
      using pos rr least by (intro exI[of _ pos] exI[of _ r]) (simp add: splice2_def)
    with merge(3) show ?thesis by simp
  qed
qed


lemma bpe_loop_fixed: "bpe_iter mm (bpe_loop mm pieces) = (bpe_loop mm pieces, True)"
proof (induction mm pieces rule: bpe_loop.induct)
  case (1 mm pieces)
  obtain pieces' d where it: "bpe_iter mm pieces = (pieces', d)"
    by (cases "bpe_iter mm pieces") auto
  show ?case
  proof (cases d)
    case True
    with it bpe_iter_done[of mm pieces pieces'] have "bpe_loop mm pieces = pieces"
      using bpe_loop_unfold[OF it] by simp
    with it True bpe_iter_done[of mm pieces pieces'] show ?thesis by simp
  next
    case False
    from "1.IH"[OF it[symmetric] False] bpe_loop_unfold[OF it] False show ?thesis by simp
  qed
qed

lemma pair_key_length: "length (pair_key a b) = Suc (length a + length b)"
  by (simp add: pair_key_def)

lemma bpe_loop_two_rules:
  assumes "a \<noteq> []" "c \<noteq> []"
  shows "bpe_loop (build_mergeMap [(a, b), (b, c)] 0 []) [a, b, c] = [a @ b, c]"
proof -
  let ?mm = "build_mergeMap [(a, b), (b, c)] 0 []"
  have k1: "pair_key (a @ b) c \<noteq> pair_key a b"
    using assms(2) pair_key_length[of "a @ b" c] pair_key_length[of a b] by auto
  have k2: "pair_key (a @ b) c \<noteq> pair_key b c"
    using assms(1) pair_key_length[of "a @ b" c] pair_key_length[of b c] by auto
  have bc: "Map_get ?mm (pair_key b c) = Some 1"
    by (simp add: Map_get_def)
  have ab: "Map_get ?mm (pair_key a b) = Some (if pair_key a b = pair_key b c then 1 else 0)"
    by (simp add: Map_get_def)
  have abc: "Map_get ?mm (pair_key (a @ b) c) = None"
    using k1 k2 by (simp add: Map_get_def)
  have it1: "bpe_iter ?mm [a, b, c] = ([a @ b, c], False)"
    unfolding bpe_iter_def using ab bc by (simp add: rank_less_def splice2_def)
  have it2: "bpe_iter ?mm [a @ b, c] = ([a @ b, c], True)"
    unfolding bpe_iter_def using abc by simp
  show ?thesis
    using bpe_loop_unfold[OF it1] bpe_loop_unfold[OF it2] by simp
qed

text \<open>
  Example data: the merge table \<open>[(_a, b), (b, c)]\<close>, and the same table with its first
  rule repeated at the end (\<open>_\<close> is the word-start marker).
\<close>

definition ex_two_rules :: tokenizer where
  "ex_two_rules =
     \<lparr>lower = False, specialTokens = [], tokenToId = [], idToToken = [],
      merges = [(WORD_START # ascii ''a'', ascii ''b''), (ascii ''b'', ascii ''c'')],
      counts = [], nextId = Fin 0\<rparr>"

definition ex_repeated_rule :: tokenizer where
  "ex_repeated_rule =
     \<lparr>lower = False, specialTokens = [], tokenToId = [], idToToken = [],
      merges = [(WORD_START # ascii ''a'', ascii ''b''), (ascii ''b'', ascii ''c''),
                (WORD_START # ascii ''a'', ascii ''b'')],
      counts = [], nextId = Fin 0\<rparr>"

text \<open>
  C1, as amended. For a merge table without a repeated rule and a word without the
  character U+0020: one iteration of the loop of \<open>_applyBPEToWord\<close>, on any pieces
  without U+0020, either finds no adjacent pair that is a rule, leaves the pieces as they
  are and ends the loop; or it merges exactly one occurrence, at a position \<open>i\<close> whose
  pair is the rule of rank \<open>r\<close>, where every adjacent pair that is a rule has a greater
  rank, or the same rank and a position not left of \<open>i\<close>. The loop rescans after every
  merge, and no adjacent pair of the pieces it returns is a rule. For the merge table
  \<open>[(a, b), (b, c)]\<close> and a word whose initial pieces are \<open>a, b, c\<close> the result is
  \<open>[ab, c]\<close>.
\<close>

theorem applyBPEToWord_priority:
  assumes "distinct (merges t)" and "SPACE \<notin> set word"
  shows "(\<forall>pieces. SPACE \<notin> set (concat pieces) \<longrightarrow>
      (case bpe_iter (build_mergeMap (merges t) 0 []) pieces of
        (pieces', d) \<Rightarrow>
          if d then pieces' = pieces
            \<and> (\<forall>j. Suc j < length pieces \<longrightarrow> (pieces ! j, pieces ! Suc j) \<notin> set (merges t))
          else \<exists>i r. Suc i < length pieces \<and> r < length (merges t)
            \<and> merges t ! r = (pieces ! i, pieces ! Suc i)
            \<and> (\<forall>j r'. Suc j < length pieces \<and> r' < length (merges t)
                    \<and> merges t ! r' = (pieces ! j, pieces ! Suc j)
                  \<longrightarrow> r < r' \<or> (r = r' \<and> i \<le> j))
            \<and> pieces' = take i pieces @ [pieces ! i @ pieces ! Suc i] @ drop (i + 2) pieces))
    \<and> (\<forall>j. Suc j < length (applyBPEToWord t word) \<longrightarrow>
          (applyBPEToWord t word ! j, applyBPEToWord t word ! Suc j) \<notin> set (merges t))
    \<and> (\<forall>a b c. merges t = [(a, b), (b, c)] \<and> wordToChars word = [a, b, c] \<longrightarrow>
          applyBPEToWord t word = [a @ b, c])"
proof (intro conjI allI impI)
  fix pieces assume "SPACE \<notin> set (concat pieces)"
  from bpe_iter_selects[OF assms(1) this]
  show "case bpe_iter (build_mergeMap (merges t) 0 []) pieces of
        (pieces', d) \<Rightarrow>
          if d then pieces' = pieces
            \<and> (\<forall>j. Suc j < length pieces \<longrightarrow> (pieces ! j, pieces ! Suc j) \<notin> set (merges t))
          else \<exists>i r. Suc i < length pieces \<and> r < length (merges t)
            \<and> merges t ! r = (pieces ! i, pieces ! Suc i)
            \<and> (\<forall>j r'. Suc j < length pieces \<and> r' < length (merges t)
                    \<and> merges t ! r' = (pieces ! j, pieces ! Suc j)
                  \<longrightarrow> r < r' \<or> (r = r' \<and> i \<le> j))
            \<and> pieces' = take i pieces @ [pieces ! i @ pieces ! Suc i] @ drop (i + 2) pieces" .
next
  fix j assume j: "Suc j < length (applyBPEToWord t word)"
  let ?mm = "build_mergeMap (merges t) 0 []"
  let ?res = "applyBPEToWord t word"
  from j have ne: "wordToChars word \<noteq> []" by (auto simp: applyBPEToWord_def Let_def)
  then have res: "?res = bpe_loop ?mm (wordToChars word)" by (simp add: applyBPEToWord_def Let_def)
  have "word \<noteq> []" using ne by (simp add: wordToChars_Nil_iff)
  then have "concat ?res = WORD_START # word"
    by (simp add: res bpe_loop_concat concat_wordToChars)
  then have nosp: "SPACE \<notin> set (concat ?res)"
    using assms(2) by (simp add: SPACE_def WORD_START_def)
  have "bpe_iter ?mm ?res = (?res, True)" unfolding res by (rule bpe_loop_fixed)
  with bpe_iter_selects[OF assms(1) nosp] j
  show "(?res ! j, ?res ! Suc j) \<notin> set (merges t)" by simp
next
  fix a b c assume h: "merges t = [(a, b), (b, c)] \<and> wordToChars word = [a, b, c]"
  then have "word \<noteq> []" using wordToChars_Nil_iff[of word] by auto
  then obtain x xs where ar: "Array_from word = x # xs"
    by (cases "Array_from word") (auto simp: Array_from_Nil_iff)
  have ne: "[] \<notin> set (Array_from w)" for w
    by (induction w rule: Array_from.induct) auto
  from h ar have "a = WORD_START # x" "c \<in> set (Array_from word)"
    by (auto simp: wordToChars_def)
  with ne[of word] have "a \<noteq> []" "c \<noteq> []" by auto
  from bpe_loop_two_rules[OF this, of b] h
  show "applyBPEToWord t word = [a @ b, c]" by (simp add: applyBPEToWord_def Let_def)
qed

theorem applyBPEToWord_priority_witness:
  "distinct (merges ex_two_rules) \<and> SPACE \<notin> set (ascii ''abc'')
   \<and> applyBPEToWord ex_two_rules (ascii ''abc'') = [WORD_START # ascii ''ab'', ascii ''c'']"
proof -
  have h1: "distinct (merges ex_two_rules)"
    by (simp add: ex_two_rules_def ascii_def WORD_START_def)
  have h2: "SPACE \<notin> set (ascii ''abc'')" by (simp add: ascii_def SPACE_def)
  have m: "merges ex_two_rules = [(WORD_START # ascii ''a'', ascii ''b''), (ascii ''b'', ascii ''c'')]"
    by (simp add: ex_two_rules_def)
  have w: "wordToChars (ascii ''abc'') = [WORD_START # ascii ''a'', ascii ''b'', ascii ''c'']"
    by code_simp
  from applyBPEToWord_priority[OF h1 h2] m w
  have "applyBPEToWord ex_two_rules (ascii ''abc'') = [(WORD_START # ascii ''a'') @ ascii ''b'', ascii ''c'']"
    by blast
  then show ?thesis using h1 h2 by (simp add: ascii_def)
qed

text \<open>
  C1 as stated (every merge table) fails when a rule is repeated: the lookup table
  keeps the last index of a key. With the table \<open>[(_a, b), (b, c), (_a, b)]\<close> and the
  word \<open>abc\<close>, the pair at position 0 is the rule of rank 0 and the pair at position 1 is
  the rule of rank 1, yet the first iteration merges position 1, and the result is
  \<open>[_a, bc]\<close>.
\<close>

theorem applyBPEToWord_repeated_rule_counterexample:
  "merges ex_repeated_rule ! 0 = (wordToChars (ascii ''abc'') ! 0, wordToChars (ascii ''abc'') ! 1)
   \<and> merges ex_repeated_rule ! 1 = (wordToChars (ascii ''abc'') ! 1, wordToChars (ascii ''abc'') ! 2)
   \<and> bpe_iter (build_mergeMap (merges ex_repeated_rule) 0 []) (wordToChars (ascii ''abc''))
       = ([WORD_START # ascii ''a'', ascii ''bc''], False)
   \<and> applyBPEToWord ex_repeated_rule (ascii ''abc'') = [WORD_START # ascii ''a'', ascii ''bc'']"
  by code_simp

text \<open>
  The keys of the lookup table can also coincide for different pairs when a piece holds
  a space (which the words that \<open>tokenize\<close> passes never do): with the rules
  \<open>(_a, ' ')\<close> and \<open>(_a, ' b')\<close> and the word \<open>a b\<close>, the pair \<open>(_a' ', b)\<close> is merged although
  it is not a rule.
\<close>

definition ex_space_rules :: tokenizer where
  "ex_space_rules =
     \<lparr>lower = False, specialTokens = [], tokenToId = [], idToToken = [],
      merges = [(WORD_START # ascii ''a'', ascii '' ''), (WORD_START # ascii ''a'', ascii '' b'')],
      counts = [], nextId = Fin 0\<rparr>"

lemma applyBPEToWord_key_collision:
  "applyBPEToWord ex_space_rules (ascii ''a b'') = [WORD_START # ascii ''a b'']
   \<and> (WORD_START # ascii ''a '', ascii ''b'') \<notin> set (merges ex_space_rules)"
  by code_simp

section \<open>Training: the merge loop\<close>

text \<open>
  The iterations the training loop performs, for the statement of its properties: the
  word counts each iteration starts from, and what it selects.
\<close>

fun train_log ::
  "nat \<Rightarrow> int \<Rightarrow> (jsstring, int) jsmap \<Rightarrow> ((jsstring, int) jsmap \<times> train_step) list" where
  "train_log 0 minFreq cs = []"
| "train_log (Suc n) minFreq cs =
     (case train_iter minFreq cs of
        None \<Rightarrow> []
      | Some s \<Rightarrow> (cs, s) # train_log n minFreq (newCounts s))"

lemma keys_Map_set_list:
  "map fst (Map_set m k v) = (if k \<in> set (map fst m) then map fst m else map fst m @ [k])"
  by (induction m) (force+)

lemma keys_Map_set: "set (map fst (Map_set m k v)) = insert k (set (map fst m))"
  unfolding keys_Map_set_list by auto

lemma distinct_Map_set: "distinct (map fst m) \<Longrightarrow> distinct (map fst (Map_set m k v))"
  unfolding keys_Map_set_list by auto

lemma pair_key_has_space: "SPACE \<in> set (pair_key p q)"
  by (simp add: pair_key_def)

lemma split_sp_from_not_Nil: "split_sp_from cur s \<noteq> []"
  by (induction s arbitrary: cur) auto

lemma split_sp_from_length: "SPACE \<in> set s \<Longrightarrow> 2 \<le> length (split_sp_from cur s)"
proof (induction s arbitrary: cur)
  case Nil
  then show ?case by simp
next
  case (Cons c s)
  show ?case
  proof (cases "c = SPACE")
    case True
    then show ?thesis
      using split_sp_from_not_Nil[of "[]" s] by (cases "split_sp_from [] s") auto
  next
    case False
    with Cons show ?thesis by simp
  qed
qed

lemma pair_key_parts: "SPACE \<in> set key \<Longrightarrow> 2 \<le> length (split_sp key)"
  by (simp add: split_sp_def split_sp_from_length)

text \<open>A pair frequency table has one entry per key, and every key holds a space.\<close>

definition good_table :: "(jsstring, int) jsmap \<Rightarrow> bool" where
  "good_table pc = (distinct (map fst pc) \<and> (\<forall>k \<in> set (map fst pc). SPACE \<in> set k))"

lemma good_table_add_pairs: "good_table pc \<Longrightarrow> good_table (add_pairs pieces cnt pc)"
proof (induction pieces cnt pc rule: add_pairs.induct)
  case (1 p q rest cnt pc)
  have "good_table (Map_set pc (pair_key p q) (get_or_0 pc (pair_key p q) + cnt))"
    using "1.prems" pair_key_has_space[of p q]
    unfolding good_table_def keys_Map_set by (simp add: distinct_Map_set)
  then show ?case using "1.IH" by simp
qed simp_all

lemma good_table_count_pairs: "good_table pc \<Longrightarrow> good_table (count_pairs cs minFreq pc)"
  by (induction cs minFreq pc rule: count_pairs.induct) (simp_all add: good_table_add_pairs)

lemma good_table_pairCounts: "good_table (count_pairs cs minFreq [])"
  by (rule good_table_count_pairs) (simp add: good_table_def)

lemma find_best_max:
  "find_best pc (bp, bc) = (best, cnt) \<Longrightarrow>
   bc \<le> cnt \<and> (\<forall>(k, c) \<in> set pc. c \<le> cnt)
   \<and> ((best = bp \<and> cnt = bc) \<or> (\<exists>k. best = Some k \<and> (k, cnt) \<in> set pc))"
proof (induction pc "(bp, bc)" arbitrary: bp bc rule: find_best.induct)
  case 1
  then show ?case by simp
next
  case (2 p c es bestPair bestCount)
  show ?case
  proof (cases "c > bestCount")
    case True
    with "2.prems" have run: "find_best es (Some p, c) = (best, cnt)" by simp
    have "(if bestCount < c then (Some p, c) else (bestPair, bestCount)) = (Some p, c)"
      using True by simp
    from "2.hyps"[OF this run] True show ?thesis by auto
  next
    case False
    with "2.prems" have run: "find_best es (bestPair, bestCount) = (best, cnt)" by simp
    have "(if bestCount < c then (Some p, c) else (bestPair, bestCount)) = (bestPair, bestCount)"
      using False by simp
    from "2.hyps"[OF this run] False show ?thesis by auto
  qed
qed

lemma train_iter_Some:
  assumes "train_iter minFreq cs = Some s"
  shows "Map_get (count_pairs cs minFreq []) (bestPair s) = Some (bestCount s)
    \<and> minFreq \<le> bestCount s
    \<and> (\<forall>(k, c) \<in> set (count_pairs cs minFreq []). c \<le> bestCount s)
    \<and> rule s = (split_sp (bestPair s) ! 0, split_sp (bestPair s) ! 1)
    \<and> 2 \<le> length (split_sp (bestPair s))
    \<and> newCounts s = apply_merge (fst (rule s)) (snd (rule s)) cs []"
proof -
  let ?pc = "count_pairs cs minFreq []"
  obtain best cnt where fb: "find_best ?pc (None, 0) = (best, cnt)"
    by (cases "find_best ?pc (None, 0)") auto
  from assms fb have ok: "?pc \<noteq> []" "best \<noteq> None" "\<not> cnt < minFreq"
    by (auto simp: train_iter_def Let_def split: if_splits)
  then obtain k where k: "best = Some k" by auto
  from assms fb ok k have s: "s = \<lparr>bestPair = k, rule = (split_sp k ! 0, split_sp k ! 1),
      bestCount = cnt, newCounts = apply_merge (split_sp k ! 0) (split_sp k ! 1) cs []\<rparr>"
    by (auto simp: train_iter_def Let_def split: if_splits)
  from find_best_max[OF fb] k have mx: "\<forall>(k, c) \<in> set ?pc. c \<le> cnt" and mem: "(k, cnt) \<in> set ?pc"
    by auto
  have "distinct (map fst ?pc)" using good_table_pairCounts[of cs minFreq] by (simp add: good_table_def)
  with mem have "map_of ?pc k = Some cnt" by simp
  moreover have "SPACE \<in> set k"
    using mem good_table_pairCounts[of cs minFreq] by (force simp: good_table_def)
  ultimately show ?thesis using mx ok s pair_key_parts[of k] by (simp add: Map_get_def)
qed

lemma train_iter_None:
  assumes "1 \<le> minFreq"
  shows "train_iter minFreq cs = None \<longleftrightarrow>
    count_pairs cs minFreq [] = [] \<or> (\<forall>(k, c) \<in> set (count_pairs cs minFreq []). c < minFreq)"
proof -
  let ?pc = "count_pairs cs minFreq []"
  obtain best cnt where fb: "find_best ?pc (None, 0) = (best, cnt)"
    by (cases "find_best ?pc (None, 0)") auto
  note mx = find_best_max[OF fb]
  show ?thesis
  proof (cases "?pc = []")
    case True
    then show ?thesis by (simp add: train_iter_def)
  next
    case ne: False
    show ?thesis
    proof (cases "cnt < minFreq")
      case True
      with mx have "\<forall>(k, c) \<in> set ?pc. c < minFreq" by fastforce
      moreover from True fb ne have "train_iter minFreq cs = None"
        by (simp add: train_iter_def Let_def)
      ultimately show ?thesis by simp
    next
      case False
      with assms mx obtain k where k: "best = Some k" "(k, cnt) \<in> set ?pc" by auto
      from k(2) good_table_pairCounts[of cs minFreq] have "SPACE \<in> set k"
        by (force simp: good_table_def)
      then have "k \<noteq> []" by auto
      with False fb ne k have "train_iter minFreq cs \<noteq> None"
        by (simp add: train_iter_def Let_def)
      moreover from k(2) False have "\<not> (\<forall>(k, c) \<in> set ?pc. c < minFreq)" by auto
      ultimately show ?thesis using ne by blast
    qed
  qed
qed

lemma train_loop_log:
  "train_loop n minFreq cs ms =
     (fst (train_loop n minFreq cs []), ms @ map (rule \<circ> snd) (train_log n minFreq cs))"
proof (induction n arbitrary: cs ms)
  case 0
  then show ?case by simp
next
  case (Suc n)
  show ?case
  proof (cases "train_iter minFreq cs")
    case None
    then show ?thesis by simp
  next
    case (Some s)
    from Suc[of "newCounts s" "ms @ [rule s]"] Suc[of "newCounts s" "[rule s]"] Some
    show ?thesis by simp
  qed
qed

lemma train_log_length: "length (train_log n minFreq cs) \<le> n"
  by (induction n arbitrary: cs) (auto split: option.splits)

lemma train_log_steps:
  "(cs', s) \<in> set (train_log n minFreq cs) \<Longrightarrow> train_iter minFreq cs' = Some s"
  by (induction n arbitrary: cs) (auto split: option.splits)

lemma train_log_stops:
  "length (train_log n minFreq cs) < n \<Longrightarrow>
   train_iter minFreq (fst (train_loop n minFreq cs [])) = None"
proof (induction n arbitrary: cs)
  case 0
  then show ?case by simp
next
  case (Suc n)
  show ?case
  proof (cases "train_iter minFreq cs")
    case None
    then show ?thesis by simp
  next
    case (Some s)
    with Suc.prems have "length (train_log n minFreq (newCounts s)) < n" by simp
    from Suc.IH[OF this] Some train_loop_log[of n minFreq "newCounts s" "[rule s]"]
    show ?thesis by simp
  qed
qed

lemma counts_assign_ids: "counts (assign_ids toks t) = counts t"
  by (induction toks t rule: assign_ids.induct) simp_all

lemma merges_assign_ids: "merges (assign_ids toks t) = merges t"
  by (induction toks t rule: assign_ids.induct) simp_all

lemma trainFromText_merges:
  "merges (trainFromText norm t text opts) =
     map (rule \<circ> snd) (train_log (nat (mergeOps opts)) (minFrequency opts)
       (count_lines norm (lower t) (split_lines [] text) []))"
proof -
  let ?cs0 = "count_lines norm (lower t) (split_lines [] text) []"
  obtain cs ms where tl: "train_loop (nat (mergeOps opts)) (minFrequency opts) ?cs0 [] = (cs, ms)"
    by (cases "train_loop (nat (mergeOps opts)) (minFrequency opts) ?cs0 []") auto
  with train_loop_log[of "nat (mergeOps opts)" "minFrequency opts" ?cs0 "[]"]
  have "ms = map (rule \<circ> snd) (train_log (nat (mergeOps opts)) (minFrequency opts) ?cs0)"
    by simp
  then show ?thesis
    by (simp add: trainFromText_def Let_def tl merges_assign_ids initSpecials_def
        split: prod.splits)
qed

lemma trainFromText_counts:
  "counts (trainFromText norm t text opts) =
     fst (train_loop (nat (mergeOps opts)) (minFrequency opts)
       (count_lines norm (lower t) (split_lines [] text) []) [])"
proof -
  let ?cs0 = "count_lines norm (lower t) (split_lines [] text) []"
  obtain cs ms where tl: "train_loop (nat (mergeOps opts)) (minFrequency opts) ?cs0 [] = (cs, ms)"
    by (cases "train_loop (nat (mergeOps opts)) (minFrequency opts) ?cs0 []") auto
  then show ?thesis
    by (simp add: trainFromText_def Let_def tl counts_assign_ids initSpecials_def
        split: prod.splits)
qed

section \<open>Training: the pieces stay within the corpus alphabet\<close>

text \<open>
  Pieces over a set \<open>A\<close> of code units, and word counts whose keys are joins of such
  pieces. When \<open>A\<close> does not hold the space U+0020, splitting a key gives the pieces back.
\<close>

definition pieces_in :: "code_unit set \<Rightarrow> jsstring list \<Rightarrow> bool" where
  "pieces_in A ps = (ps \<noteq> [] \<and> (\<forall>p \<in> set ps. set p \<subseteq> A))"

definition counts_in :: "code_unit set \<Rightarrow> (jsstring, int) jsmap \<Rightarrow> bool" where
  "counts_in A cs = (\<forall>k \<in> set (map fst cs). \<exists>ps. pieces_in A ps \<and> k = join_sp ps)"

definition table_in :: "code_unit set \<Rightarrow> (jsstring, int) jsmap \<Rightarrow> bool" where
  "table_in A pc =
     (\<forall>k \<in> set (map fst pc). \<exists>p q. k = pair_key p q \<and> set p \<subseteq> A \<and> set q \<subseteq> A)"

lemma split_sp_from_append:
  "SPACE \<notin> set p \<Longrightarrow> split_sp_from cur (p @ rest) = split_sp_from (cur @ p) rest"
  by (induction p arbitrary: cur) auto

lemma split_sp_from_join:
  "ps \<noteq> [] \<Longrightarrow> \<forall>p \<in> set ps. SPACE \<notin> set p \<Longrightarrow>
   split_sp_from cur (join_sp ps) = (cur @ hd ps) # tl ps"
proof (induction ps arbitrary: cur rule: join_sp.induct)
  case 1
  then show ?case by simp
next
  case (2 p)
  then show ?case using split_sp_from_append[of p cur "[]"] by simp
next
  case (3 p q ps)
  have "split_sp_from cur (p @ [SPACE] @ join_sp (q # ps))
      = split_sp_from (cur @ p) ([SPACE] @ join_sp (q # ps))"
    using "3.prems"(2) by (simp add: split_sp_from_append)
  also have "\<dots> = (cur @ p) # split_sp_from [] (join_sp (q # ps))" by simp
  also have "\<dots> = (cur @ p) # q # ps" using "3.IH"[of "[]"] "3.prems"(2) by simp
  finally show ?case by simp
qed

lemma split_join:
  assumes "SPACE \<notin> A" "pieces_in A ps"
  shows "split_sp (join_sp ps) = ps"
proof -
  from assms have ne: "ps \<noteq> []" and sp: "\<forall>p \<in> set ps. SPACE \<notin> set p"
    by (auto simp: pieces_in_def)
  from split_sp_from_join[OF ne sp, of "[]"] ne show ?thesis by (simp add: split_sp_def)
qed

lemma pair_key_join: "pair_key p q = join_sp [p, q]"
  by (simp add: pair_key_def)

lemma split_pair_key:
  assumes "SPACE \<notin> A" "set p \<subseteq> A" "set q \<subseteq> A"
  shows "split_sp (pair_key p q) = [p, q]"
  unfolding pair_key_join using split_join[OF assms(1), of "[p, q]"] assms(2,3)
  by (simp add: pieces_in_def)

lemma pieces_in_merge_pass: "pieces_in A ps \<Longrightarrow> pieces_in A (merge_pass a b ps)"
proof (induction a b ps rule: merge_pass.induct)
  case (1 a b p q rest)
  show ?case
  proof (cases "p = a \<and> q = b")
    case True
    have "\<forall>x \<in> set (merge_pass a b rest). set x \<subseteq> A"
    proof (cases rest)
      case Nil
      then show ?thesis by simp
    next
      case (Cons r rs)
      with "1.prems" have "pieces_in A rest" by (simp add: pieces_in_def)
      from "1.IH"(1)[OF True this] show ?thesis by (simp add: pieces_in_def)
    qed
    moreover from True have "merge_pass a b (p # q # rest) = (a @ b) # merge_pass a b rest"
      by simp
    ultimately show ?thesis using True "1.prems" by (simp add: pieces_in_def)
  next
    case False
    from "1.prems" have "pieces_in A (q # rest)" by (simp add: pieces_in_def)
    from "1.IH"(2)[OF False this] have r: "pieces_in A (merge_pass a b (q # rest))" .
    from False have "merge_pass a b (p # q # rest) = p # merge_pass a b (q # rest)" by auto
    with r "1.prems" show ?thesis by (simp add: pieces_in_def)
  qed
qed simp_all

lemma counts_in_Map_set:
  "counts_in A cs \<Longrightarrow> pieces_in A ps \<Longrightarrow> counts_in A (Map_set cs (join_sp ps) v)"
  unfolding counts_in_def keys_Map_set by auto

lemma counts_in_apply_merge:
  assumes "SPACE \<notin> A"
  shows "counts_in A cs \<Longrightarrow> counts_in A nc \<Longrightarrow> counts_in A (apply_merge a b cs nc)"
proof (induction a b cs nc rule: apply_merge.induct)
  case (1 a b nc)
  then show ?case by simp
next
  case (2 a b k cnt es nc)
  from "2.prems"(1) obtain ps where ps: "pieces_in A ps" "k = join_sp ps"
    by (auto simp: counts_in_def)
  have sp: "split_sp k = ps" using split_join[OF assms ps(1)] ps(2) by simp
  let ?out = "merge_pass a b (split_sp k)"
  have out: "pieces_in A ?out" unfolding sp by (rule pieces_in_merge_pass[OF ps(1)])
  have nc': "counts_in A (Map_set nc (join_sp ?out) (get_or_0 nc (join_sp ?out) + cnt))"
    by (rule counts_in_Map_set[OF "2.prems"(2) out])
  have es: "counts_in A es" using "2.prems"(1) by (simp add: counts_in_def)
  from "2.IH"[OF refl refl es nc'] show ?case by (simp add: Let_def)
qed

lemma table_in_add_pairs:
  "table_in A pc \<Longrightarrow> \<forall>p \<in> set ps. set p \<subseteq> A \<Longrightarrow> table_in A (add_pairs ps cnt pc)"
proof (induction ps cnt pc rule: add_pairs.induct)
  case (1 p q rest cnt pc)
  have "table_in A (Map_set pc (pair_key p q) (get_or_0 pc (pair_key p q) + cnt))"
    using "1.prems" unfolding table_in_def keys_Map_set by auto
  from "1.IH"[OF this] "1.prems"(2) show ?case by simp
qed simp_all

lemma table_in_count_pairs:
  assumes "SPACE \<notin> A"
  shows "counts_in A cs \<Longrightarrow> table_in A pc \<Longrightarrow> table_in A (count_pairs cs minFreq pc)"
proof (induction cs minFreq pc rule: count_pairs.induct)
  case (1 minFreq pc)
  then show ?case by simp
next
  case (2 k cnt es minFreq pc)
  from "2.prems"(1) obtain ps where ps: "pieces_in A ps" "k = join_sp ps"
    by (auto simp: counts_in_def)
  have sp: "split_sp k = ps" using split_join[OF assms ps(1)] ps(2) by simp
  have "table_in A (add_pairs (split_sp k) cnt pc)"
    unfolding sp by (rule table_in_add_pairs[OF "2.prems"(2)]) (use ps(1) in \<open>simp add: pieces_in_def\<close>)
  with "2.prems"(2) have
    "table_in A (if cnt < minFreq then pc else add_pairs (split_sp k) cnt pc)" by simp
  moreover have "counts_in A es" using "2.prems"(1) by (simp add: counts_in_def)
  ultimately show ?case using "2.IH" by simp
qed

lemma train_iter_in:
  assumes "SPACE \<notin> A" "counts_in A cs" "train_iter minFreq cs = Some s"
  shows "bestPair s = pair_key (fst (rule s)) (snd (rule s))"
    and "set (fst (rule s)) \<subseteq> A" and "set (snd (rule s)) \<subseteq> A"
    and "counts_in A (newCounts s)"
proof -
  let ?pc = "count_pairs cs minFreq []"
  have tab: "table_in A ?pc"
    by (rule table_in_count_pairs[OF assms(1,2)]) (simp add: table_in_def)
  note f = train_iter_Some[OF assms(3)]
  from f have "map_of ?pc (bestPair s) = Some (bestCount s)" by (simp add: Map_get_def)
  then have "bestPair s \<in> set (map fst ?pc)" by (force dest: map_of_SomeD)
  with tab obtain p q where pq: "bestPair s = pair_key p q" "set p \<subseteq> A" "set q \<subseteq> A"
    unfolding table_in_def by blast
  have r: "rule s = (p, q)"
    using f split_pair_key[OF assms(1) pq(2,3)] pq(1) by simp
  show "bestPair s = pair_key (fst (rule s)) (snd (rule s))" using pq(1) r by simp
  show "set (fst (rule s)) \<subseteq> A" "set (snd (rule s)) \<subseteq> A" using pq r by simp_all
  have "newCounts s = apply_merge (fst (rule s)) (snd (rule s)) cs []" using f by simp
  moreover have "counts_in A (apply_merge (fst (rule s)) (snd (rule s)) cs [])"
    by (rule counts_in_apply_merge[OF assms(1,2)]) (simp add: counts_in_def)
  ultimately show "counts_in A (newCounts s)" by simp
qed

lemma train_log_in:
  assumes "SPACE \<notin> A"
  shows "counts_in A cs \<Longrightarrow>
    counts_in A (fst (train_loop n minFreq cs []))
    \<and> (\<forall>(cs', s) \<in> set (train_log n minFreq cs).
          bestPair s = pair_key (fst (rule s)) (snd (rule s)))"
proof (induction n arbitrary: cs)
  case 0
  then show ?case by simp
next
  case (Suc n)
  show ?case
  proof (cases "train_iter minFreq cs")
    case None
    with Suc.prems show ?thesis by simp
  next
    case (Some s)
    note i = train_iter_in[OF assms Suc.prems Some]
    from Suc.IH[OF i(4)] i(1) Some train_loop_log[of n minFreq "newCounts s" "[rule s]"]
    show ?thesis by simp
  qed
qed

text \<open>The initial word counts: words hold no white space, so their pieces hold no space.\<close>

lemma split_ws_entries:
  "set cur \<subseteq> {c. \<not> is_space c} \<Longrightarrow>
   \<forall>w \<in> set (split_ws insep cur cs). set w \<subseteq> {c \<in> set cur \<union> set cs. \<not> is_space c}"
proof (induction cs arbitrary: insep cur)
  case Nil
  then show ?case by auto
next
  case (Cons c cs)
  show ?case
  proof (cases "is_space c")
    case True
    have e: "set ([] :: jsstring) \<subseteq> {c. \<not> is_space c}" by simp
    from Cons.IH[OF e, of True] Cons.IH[OF Cons.prems, of True] Cons.prems True
    show ?thesis by (auto split: if_splits)
  next
    case False
    with Cons.prems have "set (cur @ [c]) \<subseteq> {c. \<not> is_space c}" by auto
    from Cons.IH[OF this, of False] False show ?thesis by auto
  qed
qed

lemma words_of_entries:
  "w \<in> set (words_of line) \<Longrightarrow> w \<noteq> [] \<and> set w \<subseteq> {c \<in> set line. \<not> is_space c}"
  using split_ws_entries[of "[]" False line] by (auto simp: words_of_def)

lemma pieces_in_wordToChars:
  assumes "w \<noteq> []" "set w \<subseteq> A" "WORD_START \<in> A"
  shows "pieces_in A (wordToChars w)"
proof -
  have "set (concat (wordToChars w)) \<subseteq> A"
    using concat_wordToChars[OF assms(1)] assms(2,3) by simp
  then have "\<forall>p \<in> set (wordToChars w). set p \<subseteq> A" by auto
  with assms(1) show ?thesis by (simp add: pieces_in_def wordToChars_Nil_iff)
qed

lemma counts_in_count_words:
  assumes "WORD_START \<in> A" "\<forall>w \<in> set ws. w \<noteq> [] \<and> set w \<subseteq> A"
  shows "counts_in A cs \<Longrightarrow> counts_in A (count_words ws cs)"
  using assms(2)
proof (induction ws arbitrary: cs)
  case Nil
  then show ?case by simp
next
  case (Cons w ws)
  have "pieces_in A (wordToChars w)"
    by (rule pieces_in_wordToChars) (use Cons.prems(2) assms(1) in auto)
  from counts_in_Map_set[OF Cons.prems(1) this] Cons.IH Cons.prems(2)
  show ?case by (simp add: Let_def)
qed

lemma counts_in_count_lines:
  assumes "WORD_START \<in> A"
    "\<forall>l \<in> set ls. {c \<in> set (if low then norm l else l). \<not> is_space c} \<subseteq> A"
  shows "counts_in A cs \<Longrightarrow> counts_in A (count_lines norm low ls cs)"
  using assms(2)
proof (induction ls arbitrary: cs)
  case Nil
  then show ?case by simp
next
  case (Cons l ls)
  let ?line = "if low then norm l else l"
  have "\<forall>w \<in> set (words_of ?line). w \<noteq> [] \<and> set w \<subseteq> A"
    using words_of_entries[of _ ?line] Cons.prems(2) by fastforce
  from counts_in_count_words[OF assms(1) this Cons.prems(1)] Cons.IH Cons.prems(2)
  show ?case by (simp add: Let_def)
qed

lemma is_space_SPACE: "is_space SPACE"
  by (simp add: is_space_def SPACE_def)

text \<open>
  After training, the keys of the word counts are joins of pieces over any set \<open>A\<close> that
  holds the marker and the code units of the (normalised) lines that are not white
  space, and not the space; and the key of every selected pair is the key of its rule.
\<close>

lemma trainFromText_in:
  assumes "SPACE \<notin> A" "WORD_START \<in> A"
    "\<forall>l \<in> set (split_lines [] corpus).
        {c \<in> set (if lower t then norm l else l). \<not> is_space c} \<subseteq> A"
  shows "counts_in A (counts (trainFromText norm t corpus opts))"
    and "\<forall>(cs', s) \<in> set (train_log (nat (mergeOps opts)) (minFrequency opts)
            (count_lines norm (lower t) (split_lines [] corpus) [])).
          bestPair s = pair_key (fst (rule s)) (snd (rule s))"
proof -
  let ?cs0 = "count_lines norm (lower t) (split_lines [] corpus) []"
  have c0: "counts_in A ?cs0"
    by (rule counts_in_count_lines[OF assms(2,3)]) (simp add: counts_in_def)
  note l = train_log_in[OF assms(1) c0, of "nat (mergeOps opts)" "minFrequency opts"]
  from l show "counts_in A (counts (trainFromText norm t corpus opts))"
    by (simp add: trainFromText_counts)
  from l show "\<forall>(cs', s) \<in> set (train_log (nat (mergeOps opts)) (minFrequency opts) ?cs0).
          bestPair s = pair_key (fst (rule s)) (snd (rule s))" by blast
qed


text \<open>
  C4. For every corpus text and every configuration with \<open>minFrequency \<ge> 1\<close> and
  \<open>mergeOps \<ge> 0\<close>: the merge table that \<open>trainFromText\<close> leaves has at most \<open>mergeOps\<close>
  entries; it is the list of the rules of the iterations performed; in each of them the
  selected key is the key of the rule \<open>(a, b)\<close> that is appended, the count that the pair
  frequency table, built from the word counts the iteration starts from, holds for it is
  at least \<open>minFrequency\<close> and is the greatest count of the table; and when the loop ends
  before \<open>mergeOps\<close> iterations, the pair frequency table of the final word counts is
  empty or all its counts are below \<open>minFrequency\<close>.
\<close>

theorem trainFromText_merge_frequency:
  assumes "1 \<le> minFrequency opts" and "0 \<le> mergeOps opts"
  shows "int (length (merges (trainFromText norm t text opts))) \<le> mergeOps opts
    \<and> merges (trainFromText norm t text opts) =
        map (rule \<circ> snd) (train_log (nat (mergeOps opts)) (minFrequency opts)
          (count_lines norm (lower t) (split_lines [] text) []))
    \<and> (\<forall>(cs, s) \<in> set (train_log (nat (mergeOps opts)) (minFrequency opts)
          (count_lines norm (lower t) (split_lines [] text) [])).
          Map_get (count_pairs cs (minFrequency opts) []) (bestPair s) = Some (bestCount s)
          \<and> minFrequency opts \<le> bestCount s
          \<and> (\<forall>(k, c) \<in> set (count_pairs cs (minFrequency opts) []). c \<le> bestCount s)
          \<and> bestPair s = pair_key (fst (rule s)) (snd (rule s)))
    \<and> (int (length (merges (trainFromText norm t text opts))) < mergeOps opts \<longrightarrow>
          count_pairs (counts (trainFromText norm t text opts)) (minFrequency opts) [] = []
          \<or> (\<forall>(k, c) \<in> set (count_pairs (counts (trainFromText norm t text opts))
                (minFrequency opts) []). c < minFrequency opts))"
proof -
  let ?cs0 = "count_lines norm (lower t) (split_lines [] text) []"
  let ?n = "nat (mergeOps opts)"
  let ?mf = "minFrequency opts"
  let ?log = "train_log ?n ?mf ?cs0"
  let ?T = "trainFromText norm t text opts"
  have m: "merges ?T = map (rule \<circ> snd) ?log" by (rule trainFromText_merges)
  then have len: "length (merges ?T) = length ?log" by simp
  have c1: "int (length (merges ?T)) \<le> mergeOps opts"
    using train_log_length[of ?n ?mf ?cs0] assms(2) len by linarith
  have c3: "\<forall>(cs, s) \<in> set ?log.
          Map_get (count_pairs cs ?mf []) (bestPair s) = Some (bestCount s)
          \<and> ?mf \<le> bestCount s
          \<and> (\<forall>(k, c) \<in> set (count_pairs cs ?mf []). c \<le> bestCount s)
          \<and> bestPair s = pair_key (fst (rule s)) (snd (rule s))"
  proof (intro ballI, clarify)
    fix cs s assume in_log: "(cs, s) \<in> set ?log"
    let ?A = "insert WORD_START {c. \<not> is_space c}"
    have "SPACE \<notin> ?A" using is_space_SPACE by (simp add: SPACE_def WORD_START_def)
    from trainFromText_in(2)[OF this, of "text" t norm opts] in_log
    have "bestPair s = pair_key (fst (rule s)) (snd (rule s))" by fastforce
    with train_iter_Some[OF train_log_steps[OF in_log]]
    show "Map_get (count_pairs cs ?mf []) (bestPair s) = Some (bestCount s)
          \<and> ?mf \<le> bestCount s
          \<and> (\<forall>(k, c) \<in> set (count_pairs cs ?mf []). c \<le> bestCount s)
          \<and> bestPair s = pair_key (fst (rule s)) (snd (rule s))" by simp
  qed
  have c4: "count_pairs (counts ?T) ?mf [] = []
          \<or> (\<forall>(k, c) \<in> set (count_pairs (counts ?T) ?mf []). c < ?mf)"
    if "int (length (merges ?T)) < mergeOps opts"
  proof -
    from that len have "length ?log < ?n" by linarith
    from train_log_stops[OF this] have "train_iter ?mf (counts ?T) = None"
      by (simp add: trainFromText_counts)
    then show ?thesis using train_iter_None[OF assms(1)] by simp
  qed
  from c1 m c3 c4 show ?thesis by blast
qed


section \<open>Training: determinism and the vocabulary\<close>

lemma initSpecials_fields:
  "initSpecials t =
     \<lparr>lower = lower t, specialTokens = specialTokens t,
      tokenToId = fst (initSpecials_loop (specialTokens t) 0 ([], [])),
      idToToken = fst (snd (initSpecials_loop (specialTokens t) 0 ([], []))),
      merges = merges t, counts = counts t,
      nextId = Fin (snd (snd (initSpecials_loop (specialTokens t) 0 ([], []))))\<rparr>"
  by (cases t) (simp add: initSpecials_def split: prod.splits)

text \<open>
  C5. \<open>trainFromText\<close> is a function of the text, the options, the case-folding flag
  and the special tokens: two tokenizers that agree on the flag and the special tokens
  (whatever their vocabularies, merge tables and counts were before) are left in the
  same state, with the same merge table and the same ids.
\<close>

theorem trainFromText_deterministic:
  assumes "lower t1 = lower t2" and "specialTokens t1 = specialTokens t2"
  shows "trainFromText norm t1 text opts = trainFromText norm t2 text opts"
proof -
  have "trainFromText norm t text opts =
    (let r = train_loop (nat (mergeOps opts)) (minFrequency opts)
               (count_lines norm (lower t) (split_lines [] text) []) []
     in assign_ids (collect_tokens (map fst (fst r)) (foldl Set_add [] (specialTokens t)))
          \<lparr>lower = lower t, specialTokens = specialTokens t,
           tokenToId = fst (initSpecials_loop (specialTokens t) 0 ([], [])),
           idToToken = fst (snd (initSpecials_loop (specialTokens t) 0 ([], []))),
           merges = snd r, counts = fst r,
           nextId = Fin (snd (snd (initSpecials_loop (specialTokens t) 0 ([], []))))\<rparr>)" for t
    by (simp add: trainFromText_def Let_def initSpecials_fields case_prod_beta)
  from this[of t1] this[of t2] assms show ?thesis by simp
qed

text \<open>
  The invariant of the two loops that assign ids: the two Maps are inverse to each
  other, and every id is an integer from \<open>0\<close> up to the next id \<open>m\<close>.
\<close>

definition vocab_inv ::
  "(jsstring, jsval) jsmap \<Rightarrow> (jsnum, jsstring) jsmap \<Rightarrow> int \<Rightarrow> bool" where
  "vocab_inv t2i i2t m =
     ((\<forall>tok v. map_of t2i tok = Some v \<longrightarrow> (\<exists>i. v = JNum (Fin i) \<and> map_of i2t (Fin i) = Some tok))
      \<and> (\<forall>k tok. map_of i2t k = Some tok \<longrightarrow>
            (\<exists>i. k = Fin i \<and> 0 \<le> i \<and> i < m \<and> map_of t2i tok = Some (JNum (Fin i))))
      \<and> 0 \<le> m)"

lemma vocab_inv_add:
  assumes inv: "vocab_inv t2i i2t m" and fresh: "map_of t2i tok = None"
  shows "vocab_inv (Map_set t2i tok (JNum (Fin m))) (Map_set i2t (Fin m) tok) (m + 1)"
proof -
  from inv have A: "\<And>tok v. map_of t2i tok = Some v \<Longrightarrow>
      \<exists>i. v = JNum (Fin i) \<and> map_of i2t (Fin i) = Some tok"
    and B: "\<And>k tok. map_of i2t k = Some tok \<Longrightarrow>
      \<exists>i. k = Fin i \<and> 0 \<le> i \<and> i < m \<and> map_of t2i tok = Some (JNum (Fin i))"
    and C: "0 \<le> m"
    unfolding vocab_inv_def by blast+
  have nom: "map_of i2t (Fin m) = None"
  proof (cases "map_of i2t (Fin m)")
    case (Some x)
    from B[OF this] show ?thesis by auto
  qed simp
  have A': "\<exists>i. v = JNum (Fin i) \<and> map_of (Map_set i2t (Fin m) tok) (Fin i) = Some tok'"
    if h: "map_of (Map_set t2i tok (JNum (Fin m))) tok' = Some v" for tok' v
  proof (cases "tok' = tok")
    case True
    with h have "v = JNum (Fin m)" by (simp add: map_of_Map_set)
    with True show ?thesis by (simp add: map_of_Map_set)
  next
    case False
    with h have "map_of t2i tok' = Some v" by (simp add: map_of_Map_set)
    from A[OF this] obtain i where i: "v = JNum (Fin i)" "map_of i2t (Fin i) = Some tok'" by blast
    with nom have "i \<noteq> m" by auto
    with i show ?thesis by (simp add: map_of_Map_set)
  qed
  have B': "\<exists>i. k = Fin i \<and> 0 \<le> i \<and> i < m + 1
      \<and> map_of (Map_set t2i tok (JNum (Fin m))) tok' = Some (JNum (Fin i))"
    if h: "map_of (Map_set i2t (Fin m) tok) k = Some tok'" for k tok'
  proof (cases "k = Fin m")
    case True
    with h have "tok' = tok" by (simp add: map_of_Map_set)
    with True C show ?thesis by (simp add: map_of_Map_set)
  next
    case False
    with h have "map_of i2t k = Some tok'" by (simp add: map_of_Map_set)
    from B[OF this] obtain i where i: "k = Fin i" "0 \<le> i" "i < m"
      "map_of t2i tok' = Some (JNum (Fin i))" by blast
    with fresh have "tok' \<noteq> tok" by auto
    with i show ?thesis by (simp add: map_of_Map_set)
  qed
  from A' B' C show ?thesis unfolding vocab_inv_def by simp
qed

lemma initSpecials_loop_inv:
  assumes "vocab_inv t2i i2t idx" "distinct sts" "\<forall>st \<in> set sts. map_of t2i st = None"
    "initSpecials_loop sts idx (t2i, i2t) = (t2i', i2t', idx')"
  shows "vocab_inv t2i' i2t' idx' \<and> idx' = idx + int (length sts)
    \<and> (\<forall>j < length sts. map_of t2i' (sts ! j) = Some (JNum (Fin (idx + int j))))
    \<and> (\<forall>k v. map_of t2i k = Some v \<longrightarrow> map_of t2i' k = Some v)
    \<and> (\<forall>k. k \<notin> set sts \<longrightarrow> map_of t2i' k = map_of t2i k)"
  using assms
proof (induction sts arbitrary: t2i i2t idx)
  case Nil
  then show ?case by simp
next
  case (Cons st sts)
  let ?t = "Map_set t2i st (JNum (Fin idx))"
  let ?i = "Map_set i2t (Fin idx) st"
  have fresh: "map_of t2i st = None" using Cons.prems(3) by simp
  have inv: "vocab_inv ?t ?i (idx + 1)" by (rule vocab_inv_add[OF Cons.prems(1) fresh])
  have d: "distinct sts" and nin: "st \<notin> set sts" using Cons.prems(2) by simp_all
  have fr: "\<forall>s \<in> set sts. map_of ?t s = None"
    using Cons.prems(3) nin by (auto simp: map_of_Map_set)
  have run: "initSpecials_loop sts (idx + 1) (?t, ?i) = (t2i', i2t', idx')"
    using Cons.prems(4) by simp
  from Cons.IH[OF inv d fr run] have
    i1: "vocab_inv t2i' i2t' idx'" and
    i2: "idx' = idx + 1 + int (length sts)" and
    i3: "\<forall>j < length sts. map_of t2i' (sts ! j) = Some (JNum (Fin (idx + 1 + int j)))" and
    i4: "\<forall>k v. map_of ?t k = Some v \<longrightarrow> map_of t2i' k = Some v" and
    i5: "\<forall>k. k \<notin> set sts \<longrightarrow> map_of t2i' k = map_of ?t k"
    by blast+
  have keep: "map_of t2i' st = Some (JNum (Fin idx))"
    using i4 by (simp add: map_of_Map_set)
  have nth: "\<forall>j < length (st # sts). map_of t2i' ((st # sts) ! j) = Some (JNum (Fin (idx + int j)))"
  proof (intro allI impI)
    fix j assume j: "j < length (st # sts)"
    show "map_of t2i' ((st # sts) ! j) = Some (JNum (Fin (idx + int j)))"
    proof (cases j)
      case 0
      with keep show ?thesis by simp
    next
      case (Suc j')
      with j i3 have "map_of t2i' (sts ! j') = Some (JNum (Fin (idx + 1 + int j')))" by simp
      with Suc show ?thesis by (simp add: add.assoc)
    qed
  qed
  have old: "\<forall>k v. map_of t2i k = Some v \<longrightarrow> map_of t2i' k = Some v"
  proof (intro allI impI)
    fix k v assume kv: "map_of t2i k = Some v"
    with fresh have "k \<noteq> st" by auto
    with kv have "map_of ?t k = Some v" by (simp add: map_of_Map_set)
    with i4 show "map_of t2i' k = Some v" by blast
  qed
  have other: "\<forall>k. k \<notin> set (st # sts) \<longrightarrow> map_of t2i' k = map_of t2i k"
  proof (intro allI impI)
    fix k assume "k \<notin> set (st # sts)"
    then have k: "k \<noteq> st" "k \<notin> set sts" by simp_all
    from i5 k(2) have "map_of t2i' k = map_of ?t k" by blast
    with k(1) show "map_of t2i' k = map_of t2i k" by (simp add: map_of_Map_set)
  qed
  have len: "idx' = idx + int (length (st # sts))" using i2 by simp
  from i1 len nth old other show ?case by blast
qed

lemma vocab_inv_empty: "vocab_inv [] [] 0"
  by (simp add: vocab_inv_def)

text \<open>What \<open>assign_ids\<close> keeps and adds, for a tokenizer whose next id is \<open>Fin m\<close>.\<close>

lemma assign_ids_inv:
  assumes "vocab_inv (tokenToId t) (idToToken t) m" "nextId t = Fin m"
  shows "\<exists>m'. vocab_inv (tokenToId (assign_ids toks t)) (idToToken (assign_ids toks t)) m'
    \<and> nextId (assign_ids toks t) = Fin m' \<and> m \<le> m'
    \<and> (\<forall>k v. map_of (tokenToId t) k = Some v \<longrightarrow> map_of (tokenToId (assign_ids toks t)) k = Some v)
    \<and> (\<forall>k i. map_of (tokenToId (assign_ids toks t)) k = Some (JNum (Fin i)) \<longrightarrow>
          map_of (tokenToId t) k = Some (JNum (Fin i)) \<or> m \<le> i)
    \<and> (\<forall>tok \<in> set toks. map_of (tokenToId (assign_ids toks t)) tok \<noteq> None)
    \<and> specialTokens (assign_ids toks t) = specialTokens t"
  using assms
proof (induction toks arbitrary: t m)
  case Nil
  then show ?case by auto
next
  case (Cons tok toks)
  show ?case
  proof (cases "Map_has (tokenToId t) tok")
    case True
    from Cons.IH[OF Cons.prems] obtain m' where m': 
      "vocab_inv (tokenToId (assign_ids toks t)) (idToToken (assign_ids toks t)) m'"
      "nextId (assign_ids toks t) = Fin m'" "m \<le> m'"
      "\<forall>k v. map_of (tokenToId t) k = Some v \<longrightarrow> map_of (tokenToId (assign_ids toks t)) k = Some v"
      "\<forall>k i. map_of (tokenToId (assign_ids toks t)) k = Some (JNum (Fin i)) \<longrightarrow>
          map_of (tokenToId t) k = Some (JNum (Fin i)) \<or> m \<le> i"
      "\<forall>tok \<in> set toks. map_of (tokenToId (assign_ids toks t)) tok \<noteq> None"
      "specialTokens (assign_ids toks t) = specialTokens t"
      by blast
    from True obtain v where "map_of (tokenToId t) tok = Some v" by (auto simp: Map_has_def)
    with m'(4) have "map_of (tokenToId (assign_ids toks t)) tok \<noteq> None" by auto
    with m' True show ?thesis by (intro exI[of _ m']) simp
  next
    case False
    let ?t' = "t\<lparr>tokenToId := Map_set (tokenToId t) tok (JNum (nextId t)),
           idToToken := Map_set (idToToken t) (nextId t) tok,
           nextId := js_succ (nextId t)\<rparr>"
    have fresh: "map_of (tokenToId t) tok = None" using False by (simp add: Map_has_def)
    have inv': "vocab_inv (tokenToId ?t') (idToToken ?t') (m + 1)"
      using vocab_inv_add[OF Cons.prems(1) fresh] Cons.prems(2) by simp
    have nx: "nextId ?t' = Fin (m + 1)" using Cons.prems(2) by (simp add: js_succ_def)
    from Cons.IH[OF inv' nx] obtain m' where m':
      "vocab_inv (tokenToId (assign_ids toks ?t')) (idToToken (assign_ids toks ?t')) m'"
      "nextId (assign_ids toks ?t') = Fin m'" "m + 1 \<le> m'"
      "\<forall>k v. map_of (tokenToId ?t') k = Some v \<longrightarrow> map_of (tokenToId (assign_ids toks ?t')) k = Some v"
      "\<forall>k i. map_of (tokenToId (assign_ids toks ?t')) k = Some (JNum (Fin i)) \<longrightarrow>
          map_of (tokenToId ?t') k = Some (JNum (Fin i)) \<or> m + 1 \<le> i"
      "\<forall>tok \<in> set toks. map_of (tokenToId (assign_ids toks ?t')) tok \<noteq> None"
      "specialTokens (assign_ids toks ?t') = specialTokens ?t'"
      by blast
    have eq: "assign_ids (tok # toks) t = assign_ids toks ?t'" using False by simp
    have new: "map_of (tokenToId ?t') tok = Some (JNum (Fin m))"
      using Cons.prems(2) by (simp add: map_of_Map_set)
    have keep: "\<forall>k v. map_of (tokenToId t) k = Some v \<longrightarrow> map_of (tokenToId (assign_ids toks ?t')) k = Some v"
    proof (intro allI impI)
      fix k v assume kv: "map_of (tokenToId t) k = Some v"
      with fresh have "k \<noteq> tok" by auto
      with kv have "map_of (tokenToId ?t') k = Some v" by (simp add: map_of_Map_set)
      with m'(4) show "map_of (tokenToId (assign_ids toks ?t')) k = Some v" by blast
    qed
    have ge: "\<forall>k i. map_of (tokenToId (assign_ids toks ?t')) k = Some (JNum (Fin i)) \<longrightarrow>
          map_of (tokenToId t) k = Some (JNum (Fin i)) \<or> m \<le> i"
    proof (intro allI impI)
      fix k i assume ki: "map_of (tokenToId (assign_ids toks ?t')) k = Some (JNum (Fin i))"
      with m'(5) have "map_of (tokenToId ?t') k = Some (JNum (Fin i)) \<or> m + 1 \<le> i" by blast
      then show "map_of (tokenToId t) k = Some (JNum (Fin i)) \<or> m \<le> i"
        using Cons.prems(2) by (auto simp: map_of_Map_set split: if_splits)
    qed
    have all: "\<forall>x \<in> set (tok # toks). map_of (tokenToId (assign_ids toks ?t')) x \<noteq> None"
      using m'(6) m'(4) new by auto
    have sp: "specialTokens (assign_ids toks ?t') = specialTokens t" using m'(7) by simp
    from m'(1,2,3) keep ge all sp show ?thesis
      unfolding eq by (intro exI[of _ m']) simp
  qed
qed


lemma set_foldl_Set_add: "set (foldl Set_add xs ys) = set xs \<union> set ys"
  by (induction ys arbitrary: xs) (auto simp: Set_add_def)

lemma set_collect_tokens:
  "set (collect_tokens ks ts) = set ts \<union> (\<Union>k \<in> set ks. set (split_sp k))"
  by (induction ks arbitrary: ts) (auto simp: set_foldl_Set_add)

lemma trainFromText_vocab_facts:
  fixes norm :: "jsstring \<Rightarrow> jsstring" and t :: tokenizer and corpus :: jsstring
    and opts :: train_opts
  defines "T \<equiv> trainFromText norm t corpus opts"
  assumes dist: "distinct (specialTokens t)"
  shows "\<exists>m. vocab_inv (tokenToId T) (idToToken T) m"
    and "\<forall>i < length (specialTokens t).
          map_of (tokenToId T) (specialTokens t ! i) = Some (JNum (Fin (int i)))"
    and "\<forall>tok i. map_of (tokenToId T) tok = Some (JNum (Fin i)) \<and> tok \<notin> set (specialTokens t)
          \<longrightarrow> int (length (specialTokens t)) \<le> i"
    and "\<forall>(key, c) \<in> set (counts T). \<forall>p \<in> set (split_sp key). map_of (tokenToId T) p \<noteq> None"
proof -
  let ?r = "train_loop (nat (mergeOps opts)) (minFrequency opts)
               (count_lines norm (lower t) (split_lines [] corpus) []) []"
  let ?t1 = "t\<lparr>counts := fst ?r, merges := snd ?r\<rparr>"
  let ?toks = "collect_tokens (map fst (fst ?r)) (foldl Set_add [] (specialTokens t))"
  let ?t2 = "initSpecials ?t1"
  have T: "T = assign_ids ?toks ?t2"
    by (simp add: T_def trainFromText_def Let_def case_prod_beta)
  obtain t2i i2t idx where lp: "initSpecials_loop (specialTokens t) 0 ([], []) = (t2i, i2t, idx)"
    by (cases "initSpecials_loop (specialTokens t) 0 ([], [])") auto
  have fr0: "\<forall>st \<in> set (specialTokens t). map_of ([] :: (jsstring, jsval) jsmap) st = None"
    by simp
  from initSpecials_loop_inv[OF vocab_inv_empty dist fr0 lp] have
    s1: "vocab_inv t2i i2t idx" and
    s2: "idx = int (length (specialTokens t))" and
    s3: "\<forall>j < length (specialTokens t). map_of t2i (specialTokens t ! j) = Some (JNum (Fin (int j)))" and
    s5: "\<forall>k. k \<notin> set (specialTokens t) \<longrightarrow> map_of t2i k = None"
    by simp_all blast+
  have f2: "tokenToId ?t2 = t2i" "idToToken ?t2 = i2t" "nextId ?t2 = Fin idx"
    "counts ?t2 = fst ?r" "specialTokens ?t2 = specialTokens t"
    using lp by (simp_all add: initSpecials_def)
  have inv2: "vocab_inv (tokenToId ?t2) (idToToken ?t2) idx" using s1 f2 by simp
  from assign_ids_inv[OF inv2 f2(3), of ?toks] obtain m' where a:
    "vocab_inv (tokenToId T) (idToToken T) m'"
    "\<forall>k v. map_of (tokenToId ?t2) k = Some v \<longrightarrow> map_of (tokenToId T) k = Some v"
    "\<forall>k i. map_of (tokenToId T) k = Some (JNum (Fin i)) \<longrightarrow>
          map_of (tokenToId ?t2) k = Some (JNum (Fin i)) \<or> idx \<le> i"
    "\<forall>tok \<in> set ?toks. map_of (tokenToId T) tok \<noteq> None"
    unfolding T by blast
  from a(1) show "\<exists>m. vocab_inv (tokenToId T) (idToToken T) m" by blast
  show "\<forall>i < length (specialTokens t).
          map_of (tokenToId T) (specialTokens t ! i) = Some (JNum (Fin (int i)))"
    using s3 a(2) f2(1) by simp
  show "\<forall>tok i. map_of (tokenToId T) tok = Some (JNum (Fin i)) \<and> tok \<notin> set (specialTokens t)
          \<longrightarrow> int (length (specialTokens t)) \<le> i"
  proof (intro allI impI)
    fix tok i assume h: "map_of (tokenToId T) tok = Some (JNum (Fin i)) \<and> tok \<notin> set (specialTokens t)"
    with a(3) have "map_of (tokenToId ?t2) tok = Some (JNum (Fin i)) \<or> idx \<le> i" by blast
    moreover from h s5 f2(1) have "map_of (tokenToId ?t2) tok = None" by simp
    ultimately show "int (length (specialTokens t)) \<le> i" using s2 by simp
  qed
  have cT: "counts T = fst ?r" unfolding T by (simp add: counts_assign_ids f2)
  show "\<forall>(key, c) \<in> set (counts T). \<forall>p \<in> set (split_sp key). map_of (tokenToId T) p \<noteq> None"
  proof -
    have "map_of (tokenToId T) p \<noteq> None"
      if k: "(key, c) \<in> set (counts T)" and p: "p \<in> set (split_sp key)" for key c p
    proof -
      from k cT have "key \<in> set (map fst (fst ?r))" by force
      with p have "p \<in> set ?toks" unfolding set_collect_tokens by blast
      with a(4) show ?thesis by blast
    qed
    then show ?thesis by blast
  qed
qed

text \<open>
  C6, as amended. When the special tokens are pairwise distinct, then after
  \<open>trainFromText\<close> on any corpus: special token number \<open>i\<close> holds id \<open>i\<close>, in both
  directions; every token of the vocabulary has a non-negative integer id that maps
  back to it, and every id maps to a token that has this id; a token that is not a
  special token has an id from the number of special tokens on; no two tokens share an
  id; and every piece of the final word counts has an id.
\<close>

theorem trainFromText_vocabulary:
  assumes "distinct (specialTokens t)"
  shows "(\<forall>i < length (specialTokens t).
        Map_get (tokenToId (trainFromText norm t text opts)) (specialTokens t ! i) = Some (JNum (Fin (int i)))
        \<and> Map_get (idToToken (trainFromText norm t text opts)) (Fin (int i)) = Some (specialTokens t ! i))
    \<and> (\<forall>tok v. Map_get (tokenToId (trainFromText norm t text opts)) tok = Some v \<longrightarrow>
          (\<exists>i. 0 \<le> i \<and> v = JNum (Fin i) \<and> Map_get (idToToken (trainFromText norm t text opts)) (Fin i) = Some tok))
    \<and> (\<forall>k tok. Map_get (idToToken (trainFromText norm t text opts)) k = Some tok \<longrightarrow>
          (\<exists>i. 0 \<le> i \<and> k = Fin i \<and> Map_get (tokenToId (trainFromText norm t text opts)) tok = Some (JNum (Fin i))))
    \<and> (\<forall>tok i. Map_get (tokenToId (trainFromText norm t text opts)) tok = Some (JNum (Fin i))
            \<and> tok \<notin> set (specialTokens t) \<longrightarrow> int (length (specialTokens t)) \<le> i)
    \<and> (\<forall>tok tok' v. Map_get (tokenToId (trainFromText norm t text opts)) tok = Some v
            \<and> Map_get (tokenToId (trainFromText norm t text opts)) tok' = Some v \<longrightarrow> tok = tok')
    \<and> (\<forall>(key, c) \<in> set (counts (trainFromText norm t text opts)). \<forall>p \<in> set (split_sp key). Map_has (tokenToId (trainFromText norm t text opts)) p)"
proof -
  let ?T = "trainFromText norm t text opts"
  note f = trainFromText_vocab_facts[OF assms]
  from f(1) obtain m where inv: "vocab_inv (tokenToId ?T) (idToToken ?T) m" by blast
  from inv have A: "\<And>tok v. map_of (tokenToId ?T) tok = Some v \<Longrightarrow>
      \<exists>i. v = JNum (Fin i) \<and> map_of (idToToken ?T) (Fin i) = Some tok"
    and B: "\<And>k tok. map_of (idToToken ?T) k = Some tok \<Longrightarrow>
      \<exists>i. k = Fin i \<and> 0 \<le> i \<and> i < m \<and> map_of (tokenToId ?T) tok = Some (JNum (Fin i))"
    unfolding vocab_inv_def by blast+
  have c1: "\<forall>i < length (specialTokens t).
        Map_get (tokenToId ?T) (specialTokens t ! i) = Some (JNum (Fin (int i)))
        \<and> Map_get (idToToken ?T) (Fin (int i)) = Some (specialTokens t ! i)"
  proof (intro allI impI)
    fix i assume "i < length (specialTokens t)"
    with f(2) have e: "map_of (tokenToId ?T) (specialTokens t ! i) = Some (JNum (Fin (int i)))"
      by blast
    from A[OF e] have "map_of (idToToken ?T) (Fin (int i)) = Some (specialTokens t ! i)" by simp
    with e show "Map_get (tokenToId ?T) (specialTokens t ! i) = Some (JNum (Fin (int i)))
        \<and> Map_get (idToToken ?T) (Fin (int i)) = Some (specialTokens t ! i)"
      by (simp add: Map_get_def)
  qed
  have c2: "\<forall>tok v. Map_get (tokenToId ?T) tok = Some v \<longrightarrow>
          (\<exists>i. 0 \<le> i \<and> v = JNum (Fin i) \<and> Map_get (idToToken ?T) (Fin i) = Some tok)"
  proof (intro allI impI)
    fix tok v assume "Map_get (tokenToId ?T) tok = Some v"
    then have "map_of (tokenToId ?T) tok = Some v" by (simp add: Map_get_def)
    from A[OF this] obtain i where i: "v = JNum (Fin i)" "map_of (idToToken ?T) (Fin i) = Some tok"
      by blast
    from B[OF i(2)] have "0 \<le> i" by simp
    with i show "\<exists>i. 0 \<le> i \<and> v = JNum (Fin i) \<and> Map_get (idToToken ?T) (Fin i) = Some tok"
      by (auto simp: Map_get_def)
  qed
  have c3: "\<forall>k tok. Map_get (idToToken ?T) k = Some tok \<longrightarrow>
          (\<exists>i. 0 \<le> i \<and> k = Fin i \<and> Map_get (tokenToId ?T) tok = Some (JNum (Fin i)))"
  proof (intro allI impI)
    fix k tok assume "Map_get (idToToken ?T) k = Some tok"
    then have "map_of (idToToken ?T) k = Some tok" by (simp add: Map_get_def)
    from B[OF this] show "\<exists>i. 0 \<le> i \<and> k = Fin i \<and> Map_get (tokenToId ?T) tok = Some (JNum (Fin i))"
      by (auto simp: Map_get_def)
  qed
  have c4: "\<forall>tok i. Map_get (tokenToId ?T) tok = Some (JNum (Fin i))
            \<and> tok \<notin> set (specialTokens t) \<longrightarrow> int (length (specialTokens t)) \<le> i"
    using f(3) by (simp add: Map_get_def)
  have c5: "\<forall>tok tok' v. Map_get (tokenToId ?T) tok = Some v
            \<and> Map_get (tokenToId ?T) tok' = Some v \<longrightarrow> tok = tok'"
  proof (intro allI impI)
    fix tok tok' v assume h: "Map_get (tokenToId ?T) tok = Some v \<and> Map_get (tokenToId ?T) tok' = Some v"
    then have h1: "map_of (tokenToId ?T) tok = Some v" and h2: "map_of (tokenToId ?T) tok' = Some v"
      by (simp_all add: Map_get_def)
    from A[OF h1] A[OF h2] show "tok = tok'" by auto
  qed
  have c6: "\<forall>(key, c) \<in> set (counts ?T). \<forall>p \<in> set (split_sp key). Map_has (tokenToId ?T) p"
    using f(4) by (simp add: Map_has_def)
  from c1 c2 c3 c4 c5 c6 show ?thesis by blast
qed


text \<open>
  Example data: a tokenizer as the constructor makes it with the default special tokens
  and without case folding, the same tokenizer with a merge table set beforehand, and a
  tokenizer whose special-token list names \<open><PAD>\<close> twice.
\<close>

definition ex_fresh :: tokenizer where
  "ex_fresh = BPE_Tokenizer (\<lambda>s. NaN) (default_opts\<lparr>opt_lower := False\<rparr>)"

definition ex_used :: tokenizer where
  "ex_used = ex_fresh\<lparr>merges := [(ascii ''x'', ascii ''y'')], counts := [(ascii ''x y'', 7)]\<rparr>"

definition ex_twice_pad :: tokenizer where
  "ex_twice_pad =
     BPE_Tokenizer (\<lambda>s. NaN)
       (default_opts\<lparr>opt_lower := False, opt_specialTokens := [ascii ''<PAD>'', ascii ''<PAD>'']\<rparr>)"

definition ex_train_opts :: train_opts where
  "ex_train_opts = \<lparr>minFrequency = 2, mergeOps = 5\<rparr>"

theorem trainFromText_merge_frequency_witness:
  "1 \<le> minFrequency ex_train_opts \<and> 0 \<le> mergeOps ex_train_opts
   \<and> merges (trainFromText (\<lambda>s. s) ex_fresh (ascii ''ab ab'') ex_train_opts)
       = [(WORD_START # ascii ''a'', ascii ''b'')]
   \<and> int (length (merges (trainFromText (\<lambda>s. s) ex_fresh (ascii ''ab ab'') ex_train_opts)))
       \<le> mergeOps ex_train_opts"
proof -
  have h1: "1 \<le> minFrequency ex_train_opts" by (simp add: ex_train_opts_def)
  have h2: "0 \<le> mergeOps ex_train_opts" by (simp add: ex_train_opts_def)
  have e: "merges (trainFromText (\<lambda>s. s) ex_fresh (ascii ''ab ab'') ex_train_opts)
       = [(WORD_START # ascii ''a'', ascii ''b'')]"
    by code_simp
  from trainFromText_merge_frequency[OF h1 h2, of "\<lambda>s. s" ex_fresh "ascii ''ab ab''"] h1 h2 e
  show ?thesis by blast
qed

theorem trainFromText_deterministic_witness:
  "lower ex_fresh = lower ex_used \<and> specialTokens ex_fresh = specialTokens ex_used
   \<and> merges ex_fresh \<noteq> merges ex_used
   \<and> trainFromText (\<lambda>s. s) ex_fresh (ascii ''ab ab'') ex_train_opts
       = trainFromText (\<lambda>s. s) ex_used (ascii ''ab ab'') ex_train_opts"
proof -
  have h1: "lower ex_fresh = lower ex_used" by (simp add: ex_used_def)
  have h2: "specialTokens ex_fresh = specialTokens ex_used" by (simp add: ex_used_def)
  have h3: "merges ex_fresh \<noteq> merges ex_used" by code_simp
  from trainFromText_deterministic[OF h1 h2] h1 h2 h3 show ?thesis by blast
qed

theorem trainFromText_vocabulary_witness:
  "distinct (specialTokens ex_fresh)
   \<and> Map_get (tokenToId (trainFromText (\<lambda>s. s) ex_fresh (ascii ''ab ab'') ex_train_opts))
        (ascii ''<UNK>'') = Some (JNum (Fin 1))
   \<and> Map_get (idToToken (trainFromText (\<lambda>s. s) ex_fresh (ascii ''ab ab'') ex_train_opts))
        (Fin 1) = Some (ascii ''<UNK>'')
   \<and> Map_get (tokenToId (trainFromText (\<lambda>s. s) ex_fresh (ascii ''ab ab'') ex_train_opts))
        (WORD_START # ascii ''ab'') = Some (JNum (Fin 5))"
proof -
  have h: "distinct (specialTokens ex_fresh)" by code_simp
  have n: "specialTokens ex_fresh ! 1 = ascii ''<UNK>''" "1 < length (specialTokens ex_fresh)"
    by code_simp+
  have e: "Map_get (tokenToId (trainFromText (\<lambda>s. s) ex_fresh (ascii ''ab ab'') ex_train_opts))
        (WORD_START # ascii ''ab'') = Some (JNum (Fin 5))"
    by code_simp
  note v = trainFromText_vocabulary[OF h, of "\<lambda>s. s" "ascii ''ab ab''" ex_train_opts]
  note v1 = v[THEN conjunct1, rule_format, OF n(2)]
  from v1 n(1) h e show ?thesis by simp
qed

text \<open>
  C6 as stated fails when a special token is named twice: \<open>_initSpecials\<close> sets the
  token's id twice, so with the special tokens \<open>[<PAD>, <PAD>]\<close> the ids \<open>0\<close> and \<open>1\<close> both
  map to \<open><PAD>\<close>, and \<open><PAD>\<close>, the first special token, has id \<open>1\<close>.
\<close>

theorem trainFromText_vocabulary_counterexample:
  "specialTokens ex_twice_pad ! 0 = ascii ''<PAD>''
   \<and> Map_get (tokenToId (trainFromText (\<lambda>s. s) ex_twice_pad [] ex_train_opts)) (ascii ''<PAD>'')
       = Some (JNum (Fin 1))
   \<and> Map_get (idToToken (trainFromText (\<lambda>s. s) ex_twice_pad [] ex_train_opts)) (Fin 0)
       = Some (ascii ''<PAD>'')
   \<and> Map_get (idToToken (trainFromText (\<lambda>s. s) ex_twice_pad [] ex_train_opts)) (Fin 1)
       = Some (ascii ''<PAD>'')"
  by code_simp

text \<open>
  A merge table with a repeated rule can come out of training: when the corpus holds the
  marker character inside words, a piece can be formed in two ways. The corpus below
  (\<open>_\<close> is U+2581) is \<open>yz yz yz yz yz x_yz x_yz v_yz v_yz\<close>.
\<close>

definition ex_marker_corpus :: jsstring where
  "ex_marker_corpus =
     ascii ''yz yz yz yz yz x'' @ [WORD_START] @ ascii ''yz x'' @ [WORD_START]
     @ ascii ''yz v'' @ [WORD_START] @ ascii ''yz v'' @ [WORD_START] @ ascii ''yz''"

lemma trainFromText_repeats_rule:
  "merges (trainFromText (\<lambda>s. s) ex_fresh ex_marker_corpus \<lparr>minFrequency = 2, mergeOps = 3\<rparr>)
     = [(WORD_START # ascii ''y'', ascii ''z''), ([WORD_START], ascii ''y''),
        (WORD_START # ascii ''y'', ascii ''z'')]"
  by code_simp

section \<open>\<open>save\<close> and \<open>load\<close>\<close>

lemma Map_set_fresh: "k \<notin> set (map fst m) \<Longrightarrow> Map_set m k v = m @ [(k, v)]"
  by (induction m) auto

lemma foldl_Map_set_distinct:
  "distinct (map fst (m @ es)) \<Longrightarrow> foldl (\<lambda>m (k, v). Map_set m k v) m es = m @ es"
proof (induction es arbitrary: m)
  case Nil
  then show ?case by simp
next
  case (Cons e es)
  obtain k v where e: "e = (k, v)" by (cases e)
  from Cons.prems have "k \<notin> set (map fst m)" by (auto simp: e)
  then have s: "Map_set m k v = m @ [(k, v)]" by (rule Map_set_fresh)
  have "distinct (map fst ((m @ [(k, v)]) @ es))" using Cons.prems by (simp add: e)
  from Cons.IH[OF this] show ?case by (simp add: e s)
qed

lemma Map_from_distinct: "distinct (map fst es) \<Longrightarrow> Map_from es = es"
  using foldl_Map_set_distinct[of "[]" es] by (simp add: Map_from_def)

lemma keys_foldl_Map_set:
  "set (map fst (foldl (\<lambda>m (k, v). Map_set m k v) m es)) = set (map fst m) \<union> set (map fst es)"
proof (induction es arbitrary: m)
  case Nil
  then show ?case by simp
next
  case (Cons e es)
  obtain k v where e: "e = (k, v)" by (cases e)
  show ?case using Cons.IH[of "Map_set m k v"] keys_Map_set[of m k v] by (auto simp: e)
qed

lemma keys_Map_from: "set (map fst (Map_from es)) = set (map fst es)"
  using keys_foldl_Map_set[of "[]" es] by (simp add: Map_from_def)

lemma foldl_js_max2_NaN: "foldl js_max2 NaN ns = NaN"
  by (induction ns) simp_all

lemma Math_max_NaN: "NaN \<in> set ns \<Longrightarrow> Math_max ns = NaN"
proof -
  have "NaN \<in> set ns \<Longrightarrow> foldl js_max2 a ns = NaN" for a
  proof (induction ns arbitrary: a)
    case Nil
    then show ?case by simp
  next
    case (Cons n ns)
    show ?case
    proof (cases "n = NaN")
      case True
      then have "js_max2 a n = NaN" by (cases a) simp_all
      then show ?thesis by (simp add: foldl_js_max2_NaN)
    next
      case False
      with Cons show ?thesis by simp
    qed
  qed
  then show "NaN \<in> set ns \<Longrightarrow> Math_max ns = NaN" by (simp add: Math_max_def)
qed

text \<open>Example data: an artifact whose vocabulary gives the token \<open>a\<close> the id \<open>"x"\<close>.\<close>

definition ex_malformed :: artifact where
  "ex_malformed =
     \<lparr>meta_lower = True, meta_specialTokens = [ascii ''<PAD>'', ascii ''<UNK>''],
      vocab = [(ascii ''a'', JStr (ascii ''x'')), (ascii ''b'', JNum (Fin 3))],
      art_merges = Some []\<rparr>"

text \<open>
  C3. The claim asks \<open>load\<close> to skip a vocabulary entry whose id is not numeric, as the
  constructor does for its initial vocabulary. \<open>load\<close> does not: the entry enters the
  token-to-id Map with its raw value, the id-to-token Map gets the key \<open>NaN\<close>, and the
  next id becomes \<open>NaN\<close>. (It returns; nothing is thrown.)
\<close>

theorem load_keeps_malformed_ids:
  assumes "(tok, v) \<in> set (vocab obj)" and "distinct (map fst (vocab obj))"
    and "Number s2n v = NaN"
  shows "Map_get (tokenToId (load s2n t obj)) tok = Some v
    \<and> Map_has (idToToken (load s2n t obj)) NaN
    \<and> nextId (load s2n t obj) = NaN"
proof -
  let ?es = "map (\<lambda>(tok, idv). (Number s2n idv, tok)) (vocab obj)"
  have t2i: "tokenToId (load s2n t obj) = vocab obj"
    by (simp add: load_def Let_def Map_from_distinct[OF assms(2)])
  have i2t: "idToToken (load s2n t obj) = Map_from ?es"
    by (simp add: load_def Let_def Map_from_distinct[OF assms(2)])
  have nx: "nextId (load s2n t obj) = js_succ (Math_max (map fst (Map_from ?es)))"
    by (simp add: load_def Let_def Map_from_distinct[OF assms(2)])
  have "(NaN, tok) \<in> set ?es" using assms(1,3) by force
  then have "NaN \<in> set (map fst ?es)" by force
  then have k: "NaN \<in> set (map fst (Map_from ?es))" by (simp only: keys_Map_from)
  have c1: "Map_get (tokenToId (load s2n t obj)) tok = Some v"
    using assms(1,2) by (simp add: t2i Map_get_def)
  have c2: "Map_has (idToToken (load s2n t obj)) NaN"
    using k by (simp add: i2t Map_has_def map_of_eq_None_iff)
  have c3: "nextId (load s2n t obj) = NaN"
    using Math_max_NaN[OF k] by (simp add: nx js_succ_def)
  from c1 c2 c3 show ?thesis by simp
qed

theorem load_keeps_malformed_ids_witness:
  "(ascii ''a'', JStr (ascii ''x'')) \<in> set (vocab ex_malformed)
   \<and> distinct (map fst (vocab ex_malformed))
   \<and> Number (\<lambda>s. NaN) (JStr (ascii ''x'')) = NaN
   \<and> Map_get (tokenToId (load (\<lambda>s. NaN) ex_fresh ex_malformed)) (ascii ''a'')
       = Some (JStr (ascii ''x''))
   \<and> nextId (load (\<lambda>s. NaN) ex_fresh ex_malformed) = NaN
   \<and> Map_get (tokenToId (BPE_Tokenizer (\<lambda>s. NaN)
         (default_opts\<lparr>opt_vocab := vocab ex_malformed\<rparr>))) (ascii ''a'') = None
   \<and> Map_get (tokenToId (BPE_Tokenizer (\<lambda>s. NaN)
         (default_opts\<lparr>opt_vocab := vocab ex_malformed\<rparr>))) (ascii ''b'') = Some (JNum (Fin 3))"
proof -
  have h1: "(ascii ''a'', JStr (ascii ''x'')) \<in> set (vocab ex_malformed)"
    by (simp add: ex_malformed_def)
  have h2: "distinct (map fst (vocab ex_malformed))"
    by (simp add: ex_malformed_def ascii_def)
  have h3: "Number (\<lambda>s. NaN) (JStr (ascii ''x'')) = NaN" by simp
  have c: "Map_get (tokenToId (BPE_Tokenizer (\<lambda>s. NaN)
         (default_opts\<lparr>opt_vocab := vocab ex_malformed\<rparr>))) (ascii ''a'') = None"
    "Map_get (tokenToId (BPE_Tokenizer (\<lambda>s. NaN)
         (default_opts\<lparr>opt_vocab := vocab ex_malformed\<rparr>))) (ascii ''b'') = Some (JNum (Fin 3))"
    by code_simp+
  from load_keeps_malformed_ids[OF h1 h2 h3, of ex_fresh] h1 h2 h3 c show ?thesis by simp
qed

lemma object_entries_set: "set (object_entries es) = set es"
  by (auto simp: object_entries_def)

lemma object_entries_distinct:
  assumes "distinct (map fst es)"
  shows "distinct (map fst (object_entries es))"
proof -
  let ?P = "\<lambda>e :: jsstring \<times> 'a. array_index (fst e) \<noteq> None"
  let ?A = "filter ?P es" and ?B = "filter (\<lambda>e. array_index (fst e) = None) es"
  have inj: "inj_on fst (set es)" and d: "distinct es"
    using assms by (simp_all add: distinct_map)
  have "distinct (sort_key (\<lambda>e. the (array_index (fst e))) ?A)" using d by simp
  moreover have "inj_on fst (set (sort_key (\<lambda>e. the (array_index (fst e))) ?A))"
    using inj by (auto simp: inj_on_def)
  ultimately have dA: "distinct (map fst (sort_key (\<lambda>e. the (array_index (fst e))) ?A))"
    by (simp add: distinct_map)
  have dB: "distinct (map fst ?B)" using assms by (simp add: distinct_map_filter)
  have "set (map fst (sort_key (\<lambda>e. the (array_index (fst e))) ?A)) \<inter> set (map fst ?B) = {}"
    by auto
  with dA dB show ?thesis by (simp add: object_entries_def)
qed

lemma map_filter_json_numeric:
  "\<forall>(k, v) \<in> set m. \<exists>i. v = JNum (Fin i) \<Longrightarrow>
   List.map_filter (\<lambda>(k, v). map_option (Pair k) (json_value v)) m = m"
  by (induction m) auto

lemma distinct_initSpecials_loop:
  "distinct (map fst t2i) \<Longrightarrow> initSpecials_loop sts idx (t2i, i2t) = (a, b, c) \<Longrightarrow>
   distinct (map fst a)"
proof (induction sts arbitrary: t2i i2t idx)
  case Nil
  then show ?case by simp
next
  case (Cons st sts)
  have d: "distinct (map fst (Map_set t2i st (JNum (Fin idx))))"
    by (rule distinct_Map_set[OF Cons.prems(1)])
  have r: "initSpecials_loop sts (idx + 1)
      (Map_set t2i st (JNum (Fin idx)), Map_set i2t (Fin idx) st) = (a, b, c)"
    using Cons.prems(2) by simp
  from Cons.IH[OF d r] show ?case .
qed

lemma distinct_assign_ids:
  "distinct (map fst (tokenToId t)) \<Longrightarrow> distinct (map fst (tokenToId (assign_ids toks t)))"
  by (induction toks t rule: assign_ids.induct) (simp_all add: distinct_Map_set)

lemma lower_assign_ids: "lower (assign_ids toks t) = lower t"
  by (induction toks t rule: assign_ids.induct) simp_all

lemma trainFromText_distinct_keys:
  "distinct (map fst (tokenToId (trainFromText norm t text opts)))"
proof -
  let ?r = "train_loop (nat (mergeOps opts)) (minFrequency opts)
               (count_lines norm (lower t) (split_lines [] text) []) []"
  let ?t2 = "initSpecials (t\<lparr>counts := fst ?r, merges := snd ?r\<rparr>)"
  obtain a b c where lp: "initSpecials_loop (specialTokens t) 0 ([], []) = (a, b, c)"
    by (cases "initSpecials_loop (specialTokens t) 0 ([], [])") auto
  have "distinct (map fst a)" by (rule distinct_initSpecials_loop[OF _ lp]) simp
  then have "distinct (map fst (tokenToId ?t2))" using lp by (simp add: initSpecials_def)
  then show ?thesis
    by (simp add: trainFromText_def Let_def case_prod_beta distinct_assign_ids)
qed

text \<open>What \<open>load\<close> makes of the artifact that \<open>save\<close> produces from a trained tokenizer.\<close>

lemma load_save_trained:
  fixes norm :: "jsstring \<Rightarrow> jsstring" and t0 t1 :: tokenizer and corpus :: jsstring
    and opts :: train_opts and s2n :: "jsstring \<Rightarrow> jsnum"
  defines "T \<equiv> trainFromText norm t0 corpus opts"
  defines "L \<equiv> load s2n t1 (save T)"
  assumes dist: "distinct (specialTokens t0)"
  shows "lower L = lower T" and "specialTokens L = specialTokens T" and "merges L = merges T"
    and "map_of (tokenToId L) = map_of (tokenToId T)"
    and "map_of (idToToken L) = map_of (idToToken T)"
proof -
  let ?V = "tokenToId T" and ?I = "idToToken T"
  from trainFromText_vocab_facts(1)[OF dist, of norm corpus opts]
  obtain m where inv: "vocab_inv ?V ?I m" unfolding T_def by blast
  from inv have A: "\<And>tok v. map_of ?V tok = Some v \<Longrightarrow>
      \<exists>i. v = JNum (Fin i) \<and> map_of ?I (Fin i) = Some tok"
    and B: "\<And>k tok. map_of ?I k = Some tok \<Longrightarrow>
      \<exists>i. k = Fin i \<and> 0 \<le> i \<and> i < m \<and> map_of ?V tok = Some (JNum (Fin i))"
    unfolding vocab_inv_def by blast+
  have dV: "distinct (map fst ?V)" unfolding T_def by (rule trainFromText_distinct_keys)
  have num: "\<forall>(k, v) \<in> set ?V. \<exists>i. v = JNum (Fin i)"
  proof (intro ballI, clarify)
    fix k v assume "(k, v) \<in> set ?V"
    with dV have "map_of ?V k = Some v" by simp
    from A[OF this] show "\<exists>i. v = JNum (Fin i)" by blast
  qed
  let ?E = "object_entries ?V"
  have E: "vocab (save T) = ?E"
    by (simp add: save_def vocab_entries_def map_filter_json_numeric[OF num])
  have dE: "distinct (map fst ?E)" by (rule object_entries_distinct[OF dV])
  have sE: "set ?E = set ?V" by (rule object_entries_set)
  have t2i: "tokenToId L = ?E"
    by (simp add: L_def load_def Let_def E Map_from_distinct[OF dE])
  let ?g = "\<lambda>(tok, idv). (Number s2n idv, tok)"
  have inj: "inj_on (fst \<circ> ?g) (set ?E)"
  proof (rule inj_onI)
    fix x y assume x: "x \<in> set ?E" and y: "y \<in> set ?E" and e: "(fst \<circ> ?g) x = (fst \<circ> ?g) y"
    obtain k1 v1 where x1: "x = (k1, v1)" by (cases x)
    obtain k2 v2 where y1: "y = (k2, v2)" by (cases y)
    from x x1 sE dV have m1: "map_of ?V k1 = Some v1" by simp
    from y y1 sE dV have m2: "map_of ?V k2 = Some v2" by simp
    from A[OF m1] obtain i where i: "v1 = JNum (Fin i)" "map_of ?I (Fin i) = Some k1" by blast
    from A[OF m2] obtain j where j: "v2 = JNum (Fin j)" "map_of ?I (Fin j) = Some k2" by blast
    from e x1 y1 i(1) j(1) have "i = j" by simp
    with i j show "x = y" by (simp add: x1 y1)
  qed
  have dG: "distinct (map fst (map ?g ?E))"
  proof -
    have "distinct ?E" using dE by (simp add: distinct_map)
    with inj have "distinct (map (fst \<circ> ?g) ?E)" by (simp add: distinct_map)
    then show ?thesis by simp
  qed
  have i2t: "idToToken L = map ?g ?E"
    by (simp add: L_def load_def Let_def E Map_from_distinct[OF dE] Map_from_distinct[OF dG])
  show "lower L = lower T" "specialTokens L = specialTokens T" "merges L = merges T"
    by (simp_all add: L_def load_def Let_def save_def initSpecials_def case_prod_beta)
  show "map_of (tokenToId L) = map_of (tokenToId T)"
    unfolding t2i using map_of_inject_set[OF dE dV] sE by simp
  show "map_of (idToToken L) = map_of (idToToken T)"
  proof (rule ext)
    fix n
    have iff: "map_of (map ?g ?E) n = Some tok \<longleftrightarrow> map_of ?I n = Some tok" for tok
    proof
      assume "map_of (map ?g ?E) n = Some tok"
      then have "(n, tok) \<in> set (map ?g ?E)" by (rule map_of_SomeD)
      then obtain v where v: "(tok, v) \<in> set ?E" "Number s2n v = n" by auto
      with sE dV have mv: "map_of ?V tok = Some v" by simp
      from A[OF mv] v(2) show "map_of ?I n = Some tok" by auto
    next
      assume "map_of ?I n = Some tok"
      from B[OF this] obtain i where i: "n = Fin i" "map_of ?V tok = Some (JNum (Fin i))" by blast
      then have "(tok, JNum (Fin i)) \<in> set ?E" using sE by (auto dest: map_of_SomeD)
      then have "(n, tok) \<in> set (map ?g ?E)" using i(1) by force
      with dG show "map_of (map ?g ?E) n = Some tok" by simp
    qed
    show "map_of (idToToken L) n = map_of (idToToken T) n"
    proof (cases "map_of (map ?g ?E) n")
      case None
      have "map_of ?I n = None"
      proof (cases "map_of ?I n")
        case (Some tok)
        with iff[of tok] None show ?thesis by simp
      qed simp
      with None show ?thesis by (simp only: i2t)
    next
      case (Some tok)
      with iff[of tok] have "map_of ?I n = Some tok" by simp
      with Some show ?thesis by (simp only: i2t)
    qed
  qed
qed

text \<open>\<open>encode\<close> and \<open>decode\<close> read a tokenizer only through these parts of its state.\<close>

lemma applyBPEToWord_cong:
  assumes "merges u = merges t"
  shows "applyBPEToWord u w = applyBPEToWord t w"
  unfolding applyBPEToWord_def assms by (rule refl)

lemma tokenize_words_cong:
  assumes "merges u = merges t"
  shows "tokenize_words u ws out = tokenize_words t ws out"
proof (induction ws arbitrary: out)
  case Nil
  show ?case by simp
next
  case (Cons w ws)
  show ?case
    unfolding tokenize_words.simps Cons.IH applyBPEToWord_cong[OF assms] by (rule refl)
qed

lemma id_of_cong:
  assumes "map_of (tokenToId u) = map_of (tokenToId t)"
  shows "id_of u k = id_of t k"
  unfolding id_of_def Map_get_def assms by (rule refl)

lemma encode_pieces_cong:
  assumes "map_of (tokenToId u) = map_of (tokenToId t)"
  shows "encode_pieces u keep ps ids = encode_pieces t keep ps ids"
proof (induction ps arbitrary: ids)
  case Nil
  show ?case by simp
next
  case (Cons p ps)
  show ?case
    unfolding encode_pieces.simps Cons.IH id_of_cong[OF assms] by (rule refl)
qed

lemma encode_cong:
  assumes "lower u = lower t" "merges u = merges t" "map_of (tokenToId u) = map_of (tokenToId t)"
  shows "encode norm u text opts = encode norm t text opts"
  unfolding encode_def tokenize_def assms(1) tokenize_words_cong[OF assms(2)]
    encode_pieces_cong[OF assms(3)] id_of_cong[OF assms(3)]
  by (rule refl)

lemma decode_parts_cong:
  assumes "specialTokens u = specialTokens t" "map_of (idToToken u) = map_of (idToToken t)"
  shows "decode_parts s2n u skip ids parts = decode_parts s2n t skip ids parts"
proof (induction ids arbitrary: parts)
  case Nil
  show ?case by simp
next
  case (Cons i ids)
  show ?case
    unfolding decode_parts.simps Cons.IH Map_get_def assms by (rule refl)
qed

lemma decode_cong:
  assumes "specialTokens u = specialTokens t" "map_of (idToToken u) = map_of (idToToken t)"
  shows "decode s2n u ids skip = decode s2n t ids skip"
  unfolding decode_def decode_parts_cong[OF assms] by (rule refl)

text \<open>
  C2, as amended. For a tokenizer trained with pairwise distinct special tokens,
  \<open>save\<close> followed by \<open>load\<close> (into any tokenizer) gives a tokenizer whose \<open>encode\<close> and
  \<open>decode\<close> return the same results on every text, every id sequence and all options.
\<close>

theorem save_load_roundtrip:
  assumes "distinct (specialTokens t0)"
  shows "encode norm (load s2n t1 (save (trainFromText norm' t0 corpus topts))) text eopts
           = encode norm (trainFromText norm' t0 corpus topts) text eopts
    \<and> decode s2n (load s2n t1 (save (trainFromText norm' t0 corpus topts))) ids skip
           = decode s2n (trainFromText norm' t0 corpus topts) ids skip"
proof -
  note f = load_save_trained[OF assms, of s2n t1 norm' corpus topts]
  from encode_cong[OF f(1) f(3) f(4)] decode_cong[OF f(2) f(5)] show ?thesis by simp
qed

theorem save_load_roundtrip_witness:
  "distinct (specialTokens ex_fresh)
   \<and> encode (\<lambda>s. s) (load (\<lambda>s. NaN) ex_used
        (save (trainFromText (\<lambda>s. s) ex_fresh (ascii ''ab ab'') ex_train_opts)))
        (ascii ''ab c'') \<lparr>addBosEos = True, keepSpaces = True\<rparr>
       = encode (\<lambda>s. s) (trainFromText (\<lambda>s. s) ex_fresh (ascii ''ab ab'') ex_train_opts)
        (ascii ''ab c'') \<lparr>addBosEos = True, keepSpaces = True\<rparr>
   \<and> encode (\<lambda>s. s) (trainFromText (\<lambda>s. s) ex_fresh (ascii ''ab ab'') ex_train_opts)
        (ascii ''ab c'') \<lparr>addBosEos = True, keepSpaces = True\<rparr>
       = [JNum (Fin 2), JNum (Fin 5), JNum (Fin 1), JNum (Fin 1), JNum (Fin 3)]
   \<and> decode (\<lambda>s. NaN) (load (\<lambda>s. NaN) ex_used
        (save (trainFromText (\<lambda>s. s) ex_fresh (ascii ''ab ab'') ex_train_opts)))
        [JNum (Fin 5), JNum (Fin 0)] True
       = decode (\<lambda>s. NaN) (trainFromText (\<lambda>s. s) ex_fresh (ascii ''ab ab'') ex_train_opts)
        [JNum (Fin 5), JNum (Fin 0)] True"
proof -
  have h: "distinct (specialTokens ex_fresh)" by code_simp
  have e: "encode (\<lambda>s. s) (trainFromText (\<lambda>s. s) ex_fresh (ascii ''ab ab'') ex_train_opts)
        (ascii ''ab c'') \<lparr>addBosEos = True, keepSpaces = True\<rparr>
       = [JNum (Fin 2), JNum (Fin 5), JNum (Fin 1), JNum (Fin 1), JNum (Fin 3)]"
    by code_simp
  from save_load_roundtrip[OF h, of "\<lambda>s. s" "\<lambda>s. NaN" ex_used "\<lambda>s. s" "ascii ''ab ab''"
      ex_train_opts "ascii ''ab c''" "\<lparr>addBosEos = True, keepSpaces = True\<rparr>"
      "[JNum (Fin 5), JNum (Fin 0)]" True] h e
  show ?thesis by simp
qed

text \<open>
  C2 as stated fails for a tokenizer trained with a special token named twice: after
  training with the special tokens \<open>[<PAD>, <PAD>]\<close> the id \<open>0\<close> maps to \<open><PAD>\<close>, but the
  saved vocabulary holds only \<open><PAD>\<close> with id \<open>1\<close>, so after \<open>load\<close> the id \<open>0\<close> is
  unknown: \<open>decode([0])\<close> is the empty text before and \<open><UNK>\<close> after.
\<close>

theorem save_load_roundtrip_counterexample:
  "decode (\<lambda>s. NaN) (trainFromText (\<lambda>s. s) ex_twice_pad [] ex_train_opts) [JNum (Fin 0)] True = []
   \<and> decode (\<lambda>s. NaN)
        (load (\<lambda>s. NaN) ex_fresh (save (trainFromText (\<lambda>s. s) ex_twice_pad [] ex_train_opts)))
        [JNum (Fin 0)] True = ascii ''<UNK>''"
  by code_simp

section \<open>\<open>encode\<close> and \<open>decode\<close>\<close>

text \<open>
  What the loops of \<open>tokenize\<close>, \<open>encode\<close> and \<open>decode\<close> do with one element: the pieces
  of one entry of the split text, the ids of one piece, the token of one id, and the
  text of one token.
\<close>

definition tokenize_word :: "tokenizer \<Rightarrow> jsstring \<Rightarrow> jsstring list" where
  "tokenize_word t w =
     (if all_space w then [w] else if length w = 0 then [] else applyBPEToWord t w)"

definition encode_piece :: "tokenizer \<Rightarrow> bool \<Rightarrow> jsstring \<Rightarrow> jsval list" where
  "encode_piece t keep p =
     (if all_space p
      then (if keep
            then [nullish (id_of t (ascii ''<SPACE>'' @ dec_string (length p)))
                    (id_of t (ascii ''<UNK>''))]
            else [])
      else [nullish (id_of t p) (id_of t (ascii ''<UNK>''))])"

definition token_of :: "(jsstring \<Rightarrow> jsnum) \<Rightarrow> tokenizer \<Rightarrow> jsval \<Rightarrow> jsstring" where
  "token_of s2n t idRaw =
     (case Map_get (idToToken t) (Number s2n idRaw) of None \<Rightarrow> ascii ''<UNK>'' | Some s \<Rightarrow> s)"

definition decode_id :: "(jsstring \<Rightarrow> jsnum) \<Rightarrow> tokenizer \<Rightarrow> bool \<Rightarrow> jsval \<Rightarrow> jsstring list" where
  "decode_id s2n t skip idRaw =
     (if skip \<and> token_of s2n t idRaw \<in> set (specialTokens t) then []
      else [token_of s2n t idRaw])"

definition strip_marker :: "jsstring \<Rightarrow> jsstring" where
  "strip_marker p = (if p \<noteq> [] \<and> hd p = WORD_START then tl p else p)"

lemma tokenize_words_map:
  "tokenize_words t ws out = out @ concat (map (tokenize_word t) ws)"
  by (induction ws arbitrary: out) (simp_all add: tokenize_word_def)

lemma encode_pieces_Cons:
  "encode_pieces t keep (p # ps) ids = encode_pieces t keep ps (ids @ encode_piece t keep p)"
  by (simp add: encode_piece_def Let_def)

lemma decode_parts_Cons:
  "decode_parts s2n t skip (i # ids) parts =
     decode_parts s2n t skip ids (parts @ decode_id s2n t skip i)"
  by (simp add: decode_id_def token_of_def Let_def)

lemma encode_pieces_map:
  "encode_pieces t keep ps ids = ids @ concat (map (encode_piece t keep) ps)"
proof (induction ps arbitrary: ids)
  case Nil
  show ?case by simp
next
  case (Cons p ps)
  show ?case unfolding encode_pieces_Cons Cons.IH by simp
qed

lemma decode_parts_map:
  "decode_parts s2n t skip ids parts = parts @ concat (map (decode_id s2n t skip) ids)"
proof (induction ids arbitrary: parts)
  case Nil
  show ?case by simp
next
  case (Cons i ids)
  show ?case unfolding decode_parts_Cons Cons.IH by simp
qed

lemma decode_join_map: "decode_join ps out = out @ concat (map strip_marker ps)"
  by (induction ps arbitrary: out) (simp_all add: strip_marker_def)

lemma encode_map:
  "encode norm t text opts =
     (if addBosEos opts then [id_of t (ascii ''<BOS>'')] else [])
     @ concat (map (encode_piece t (keepSpaces opts)) (tokenize norm t text))
     @ (if addBosEos opts then [id_of t (ascii ''<EOS>'')] else [])"
  by (simp add: encode_def Let_def encode_pieces_map)

lemma decode_map:
  "decode s2n t ids skip = concat (map strip_marker (concat (map (decode_id s2n t skip) ids)))"
  by (simp add: decode_def decode_parts_map decode_join_map)

text \<open>The tokens of a trained vocabulary: the special tokens and the pieces of the words.\<close>

lemma keys_initSpecials_loop:
  "initSpecials_loop sts idx (t2i, i2t) = (a, b, c) \<Longrightarrow>
   set (map fst a) = set (map fst t2i) \<union> set sts"
proof (induction sts arbitrary: t2i i2t idx)
  case Nil
  then show ?case by simp
next
  case (Cons st sts)
  from Cons.prems have r: "initSpecials_loop sts (idx + 1)
      (Map_set t2i st (JNum (Fin idx)), Map_set i2t (Fin idx) st) = (a, b, c)" by simp
  from Cons.IH[OF r] keys_Map_set[of t2i st "JNum (Fin idx)"] show ?case by auto
qed

lemma keys_assign_ids:
  "set (map fst (tokenToId (assign_ids toks t))) = set (map fst (tokenToId t)) \<union> set toks"
proof (induction toks t rule: assign_ids.induct)
  case (1 t)
  then show ?case by simp
next
  case (2 tok toks t)
  show ?case
  proof (cases "Map_has (tokenToId t) tok")
    case True
    then have "tok \<in> set (map fst (tokenToId t))"
      by (simp add: Map_has_def map_of_eq_None_iff)
    with "2.IH"(1)[OF True] True show ?thesis by auto
  next
    case False
    from "2.IH"(2)[OF False] False keys_Map_set[of "tokenToId t" tok "JNum (nextId t)"]
    show ?thesis by auto
  qed
qed

lemma trainFromText_vocab_keys:
  "set (map fst (tokenToId (trainFromText norm t corpus opts)))
     = set (specialTokens t)
       \<union> (\<Union>k \<in> set (map fst (counts (trainFromText norm t corpus opts))). set (split_sp k))"
proof -
  let ?r = "train_loop (nat (mergeOps opts)) (minFrequency opts)
               (count_lines norm (lower t) (split_lines [] corpus) []) []"
  let ?t2 = "initSpecials (t\<lparr>counts := fst ?r, merges := snd ?r\<rparr>)"
  let ?toks = "collect_tokens (map fst (fst ?r)) (foldl Set_add [] (specialTokens t))"
  obtain a b c where lp: "initSpecials_loop (specialTokens t) 0 ([], []) = (a, b, c)"
    by (cases "initSpecials_loop (specialTokens t) 0 ([], [])") auto
  have k2: "set (map fst (tokenToId ?t2)) = set (specialTokens t)"
    using keys_initSpecials_loop[OF lp] lp by (simp add: initSpecials_def)
  have T: "trainFromText norm t corpus opts = assign_ids ?toks ?t2"
    by (simp add: trainFromText_def Let_def case_prod_beta)
  have cT: "counts (trainFromText norm t corpus opts) = fst ?r"
    by (rule trainFromText_counts)
  have "set ?toks = set (specialTokens t) \<union> (\<Union>k \<in> set (map fst (fst ?r)). set (split_sp k))"
    by (simp add: set_collect_tokens set_foldl_Set_add)
  then show ?thesis unfolding cT unfolding T keys_assign_ids k2 by auto
qed

lemma trainFromText_unseen:
  assumes "c \<in> set p" "c \<noteq> WORD_START"
    and "\<forall>l \<in> set (split_lines [] corpus). c \<notin> set (if lower t then norm l else l)"
    and "p \<notin> set (specialTokens t)"
  shows "Map_get (tokenToId (trainFromText norm t corpus opts)) p = None"
proof -
  let ?T = "trainFromText norm t corpus opts"
  let ?A = "{x. x \<noteq> SPACE \<and> x \<noteq> c}"
  have a1: "SPACE \<notin> ?A" by simp
  have a2: "WORD_START \<in> ?A" using assms(2) by (simp add: SPACE_def WORD_START_def)
  have a3: "\<forall>l \<in> set (split_lines [] corpus).
        {x \<in> set (if lower t then norm l else l). \<not> is_space x} \<subseteq> ?A"
    using assms(3) is_space_SPACE by auto
  note ci = trainFromText_in(1)[OF a1 a2 a3, of opts]
  have "p \<notin> set (split_sp k)" if k: "k \<in> set (map fst (counts ?T))" for k
  proof
    assume pk: "p \<in> set (split_sp k)"
    from ci k obtain ps where ps: "pieces_in ?A ps" "k = join_sp ps"
      unfolding counts_in_def by blast
    from split_join[OF a1 ps(1)] ps(2) pk have "p \<in> set ps" by simp
    with ps(1) have "set p \<subseteq> ?A" by (simp add: pieces_in_def)
    with assms(1) show False by auto
  qed
  with assms(4) have "p \<notin> set (map fst (tokenToId ?T))"
    unfolding trainFromText_vocab_keys by blast
  then show ?thesis by (simp add: Map_get_def map_of_eq_None_iff)
qed

text \<open>
  C8. \<open>encode\<close> is a total function of the text: it returns the ids that its pieces
  contribute one by one (between the ids of \<open><BOS>\<close> and \<open><EOS>\<close> when they are asked for),
  and a piece that is not white space and is absent from the vocabulary contributes
  exactly the id of \<open><UNK>\<close>; no step of it can throw. For a trained tokenizer this is
  the case of every piece that holds a code unit, other than the marker, that occurs in
  no (normalised) line of the training corpus, unless the piece is a special token.
\<close>

theorem encode_unknown_piece:
  "encode norm t text opts =
     (if addBosEos opts then [id_of t (ascii ''<BOS>'')] else [])
     @ concat (map (encode_piece t (keepSpaces opts)) (tokenize norm t text))
     @ (if addBosEos opts then [id_of t (ascii ''<EOS>'')] else [])
   \<and> (\<forall>p keep. \<not> all_space p \<and> Map_get (tokenToId t) p = None \<longrightarrow>
         encode_piece t keep p = [id_of t (ascii ''<UNK>'')])
   \<and> (\<forall>t0 corpus topts p c keep.
         t = trainFromText norm t0 corpus topts \<and> \<not> all_space p \<and> c \<in> set p
         \<and> c \<noteq> WORD_START
         \<and> (\<forall>l \<in> set (split_lines [] corpus). c \<notin> set (if lower t0 then norm l else l))
         \<and> p \<notin> set (specialTokens t0) \<longrightarrow>
         encode_piece t keep p = [id_of t (ascii ''<UNK>'')])"
proof -
  have absent: "encode_piece t keep p = [id_of t (ascii ''<UNK>'')]"
    if "\<not> all_space p" "Map_get (tokenToId t) p = None" for p keep
    using that by (simp add: encode_piece_def id_of_def nullish_def)
  have unseen: "encode_piece t keep p = [id_of t (ascii ''<UNK>'')]"
    if h: "t = trainFromText norm t0 corpus topts \<and> \<not> all_space p \<and> c \<in> set p
         \<and> c \<noteq> WORD_START
         \<and> (\<forall>l \<in> set (split_lines [] corpus). c \<notin> set (if lower t0 then norm l else l))
         \<and> p \<notin> set (specialTokens t0)" for t0 corpus topts p c keep
  proof -
    from h have e: "t = trainFromText norm t0 corpus topts" and ns: "\<not> all_space p"
      and u: "c \<in> set p" "c \<noteq> WORD_START"
        "\<forall>l \<in> set (split_lines [] corpus). c \<notin> set (if lower t0 then norm l else l)"
        "p \<notin> set (specialTokens t0)"
      by simp_all
    have "Map_get (tokenToId t) p = None" unfolding e by (rule trainFromText_unseen[OF u])
    with ns show ?thesis by (rule absent)
  qed
  from encode_map[of norm t "text" opts] absent unseen show ?thesis by blast
qed

text \<open>
  Example data: the tokenizer trained on \<open>ab ab\<close>, and the tokenizer trained on the
  corpus \<open>a_b\<close>, a single word with the marker character in the middle.
\<close>

definition ex_trained :: tokenizer where
  "ex_trained = trainFromText (\<lambda>s. s) ex_fresh (ascii ''ab ab'') ex_train_opts"

definition ex_marker_text :: jsstring where
  "ex_marker_text = ascii ''a'' @ [WORD_START] @ ascii ''b''"

definition ex_marker_trained :: tokenizer where
  "ex_marker_trained = trainFromText (\<lambda>s. s) ex_fresh ex_marker_text ex_train_opts"

theorem encode_unknown_piece_witness:
  "\<not> all_space (WORD_START # ascii ''c'')
   \<and> Map_get (tokenToId ex_trained) (WORD_START # ascii ''c'') = None
   \<and> id_of ex_trained (ascii ''<UNK>'') = JNum (Fin 1)
   \<and> encode_piece ex_trained True (WORD_START # ascii ''c'') = [JNum (Fin 1)]
   \<and> tokenize (\<lambda>s. s) ex_trained (ascii ''ab c'')
       = [WORD_START # ascii ''ab'', ascii '' '', WORD_START # ascii ''c'']
   \<and> encode (\<lambda>s. s) ex_trained (ascii ''ab c'') \<lparr>addBosEos = True, keepSpaces = True\<rparr>
       = [JNum (Fin 2), JNum (Fin 5), JNum (Fin 1), JNum (Fin 1), JNum (Fin 3)]"
proof -
  have h1: "\<not> all_space (WORD_START # ascii ''c'')" by code_simp
  have h2: "Map_get (tokenToId ex_trained) (WORD_START # ascii ''c'') = None" by code_simp
  have u: "id_of ex_trained (ascii ''<UNK>'') = JNum (Fin 1)" by code_simp
  have tk: "tokenize (\<lambda>s. s) ex_trained (ascii ''ab c'')
       = [WORD_START # ascii ''ab'', ascii '' '', WORD_START # ascii ''c'']" by code_simp
  have en: "encode (\<lambda>s. s) ex_trained (ascii ''ab c'') \<lparr>addBosEos = True, keepSpaces = True\<rparr>
       = [JNum (Fin 2), JNum (Fin 5), JNum (Fin 1), JNum (Fin 1), JNum (Fin 3)]" by code_simp
  note th = encode_unknown_piece[of "\<lambda>s. s" ex_trained "ascii ''ab c''"
      "\<lparr>addBosEos = True, keepSpaces = True\<rparr>"]
  from th[THEN conjunct2, THEN conjunct1, rule_format, of "WORD_START # ascii ''c''" True] h1 h2 u
  have e1: "encode_piece ex_trained True (WORD_START # ascii ''c'') = [JNum (Fin 1)]" by simp
  have tr: "ex_trained = trainFromText (\<lambda>s. s) ex_fresh (ascii ''ab ab'') ex_train_opts"
    by (simp add: ex_trained_def)
  have ls: "split_lines [] (ascii ''ab ab'') = [ascii ''ab ab'']" by code_simp
  have un: "\<forall>l \<in> set (split_lines [] (ascii ''ab ab'')).
      (0x63 :: code_unit) \<notin> set (if lower ex_fresh then (\<lambda>s. s) l else l)"
    unfolding ls by (simp add: ascii_def)
  have c1: "(0x63 :: code_unit) \<in> set (WORD_START # ascii ''c'')" by (simp add: ascii_def)
  have c2: "(0x63 :: code_unit) \<noteq> WORD_START" by (simp add: WORD_START_def)
  have c3: "WORD_START # ascii ''c'' \<notin> set (specialTokens ex_fresh)" by code_simp
  from th[THEN conjunct2, THEN conjunct2, rule_format,
      of ex_fresh "ascii ''ab ab''" ex_train_opts "WORD_START # ascii ''c''" "0x63" True]
    tr h1 un c1 c2 c3 u
  have e2: "encode_piece ex_trained True (WORD_START # ascii ''c'') = [JNum (Fin 1)]" by simp
  from h1 h2 u tk en e1 e2 show ?thesis by simp
qed

lemma not_space_WORD_START: "\<not> is_space WORD_START"
  by (simp add: is_space_def WORD_START_def)

lemma all_space_iff: "all_space w \<longleftrightarrow> w \<noteq> [] \<and> (\<forall>c \<in> set w. is_space c)"
  by (simp add: all_space_def list_all_iff)

lemma split_keep_ws_entries:
  "(if insep then all_space acc else \<forall>c \<in> set acc. \<not> is_space c) \<Longrightarrow>
   \<forall>w \<in> set (split_keep_ws insep acc cs). all_space w \<or> (\<forall>c \<in> set w. \<not> is_space c)"
proof (induction cs arbitrary: insep acc)
  case Nil
  then show ?case by (cases insep) auto
next
  case (Cons c cs)
  show ?case
  proof (cases "is_space c")
    case sp: True
    show ?thesis
    proof (cases insep)
      case True
      with Cons.prems sp have "all_space (acc @ [c])" by (auto simp: all_space_iff)
      then have "if True then all_space (acc @ [c]) else \<forall>c \<in> set (acc @ [c]). \<not> is_space c"
        by simp
      from Cons.IH[OF this] True sp show ?thesis by simp
    next
      case False
      from sp have "if True then all_space [c] else \<forall>x \<in> set [c]. \<not> is_space x"
        by (simp add: all_space_iff)
      from Cons.IH[OF this] False sp Cons.prems show ?thesis by simp
    qed
  next
    case ns: False
    show ?thesis
    proof (cases insep)
      case True
      from ns have "if False then all_space [c] else \<forall>x \<in> set [c]. \<not> is_space x" by simp
      from Cons.IH[OF this] True ns Cons.prems show ?thesis by simp
    next
      case False
      with Cons.prems ns have
        "if False then all_space (acc @ [c]) else \<forall>x \<in> set (acc @ [c]). \<not> is_space x"
        by simp
      from Cons.IH[OF this] False ns show ?thesis by simp
    qed
  qed
qed

lemma split_keep_ws_words:
  "(if insep then all_space acc else \<forall>c \<in> set acc. \<not> is_space c) \<Longrightarrow>
   concat (filter (\<lambda>w. \<not> all_space w) (split_keep_ws insep acc cs))
     = (if insep then [] else acc) @ filter (\<lambda>c. \<not> is_space c) cs"
proof (induction cs arbitrary: insep acc)
  case Nil
  then show ?case by (cases insep) (auto simp: all_space_iff)
next
  case (Cons c cs)
  show ?case
  proof (cases "is_space c")
    case sp: True
    show ?thesis
    proof (cases insep)
      case True
      with Cons.prems sp have "all_space (acc @ [c])" by (auto simp: all_space_iff)
      then have "if True then all_space (acc @ [c]) else \<forall>c \<in> set (acc @ [c]). \<not> is_space c"
        by simp
      from Cons.IH[OF this] True sp show ?thesis by simp
    next
      case False
      from sp have "if True then all_space [c] else \<forall>x \<in> set [c]. \<not> is_space x"
        by (simp add: all_space_iff)
      from Cons.IH[OF this] False sp Cons.prems show ?thesis by (auto simp: all_space_iff)
    qed
  next
    case ns: False
    show ?thesis
    proof (cases insep)
      case True
      from ns have "if False then all_space [c] else \<forall>x \<in> set [c]. \<not> is_space x" by simp
      from Cons.IH[OF this] True ns Cons.prems show ?thesis by simp
    next
      case False
      with Cons.prems ns have
        "if False then all_space (acc @ [c]) else \<forall>x \<in> set (acc @ [c]). \<not> is_space x"
        by simp
      from Cons.IH[OF this] False ns show ?thesis by simp
    qed
  qed
qed

text \<open>
  The shape of the pieces of a word in which the marker occurs at most as the first
  code unit: the first piece starts with the marker that \<open>_wordToChars\<close> adds, and no
  other piece is empty or starts with the marker. Merging keeps this shape.
\<close>

definition marked :: "jsstring list \<Rightarrow> bool" where
  "marked ps =
     (\<exists>p0 rest. ps = (WORD_START # p0) # rest \<and> [] \<notin> set rest
        \<and> (\<forall>p \<in> set rest. hd p \<noteq> WORD_START))"

lemma Array_from_not_Nil: "[] \<notin> set (Array_from s)"
  by (induction s rule: Array_from.induct) auto

lemma marked_wordToChars:
  assumes "w \<noteq> []" "WORD_START \<notin> set (tl w)"
  shows "marked (wordToChars w)"
proof -
  from assms(1) obtain c0 cs where ar: "Array_from w = c0 # cs"
    by (cases "Array_from w") (auto simp: Array_from_Nil_iff)
  have c0: "c0 \<noteq> []" using Array_from_not_Nil[of w] ar by auto
  have ne: "[] \<notin> set cs" using Array_from_not_Nil[of w] ar by auto
  have "c0 @ concat cs = w" using concat_Array_from[of w] ar by simp
  then have "concat cs = drop (length c0) w" by (metis append_eq_conv_conj)
  moreover have "set (drop (length c0) w) \<subseteq> set (tl w)"
  proof -
    from c0 obtain n where "length c0 = Suc n" by (cases c0) auto
    then have "drop (length c0) w = drop n (tl w)" by (simp add: drop_Suc)
    then show ?thesis by (simp add: set_drop_subset)
  qed
  ultimately have sub: "set (concat cs) \<subseteq> set (tl w)" by simp
  have hd: "\<forall>p \<in> set cs. hd p \<noteq> WORD_START"
  proof
    fix p assume p: "p \<in> set cs"
    with ne have "p \<noteq> []" by auto
    then have "hd p \<in> set p" by simp
    with p have "hd p \<in> set (concat cs)" by auto
    with sub assms(2) show "hd p \<noteq> WORD_START" by auto
  qed
  have "wordToChars w = (WORD_START # c0) # cs" using ar by (simp add: wordToChars_def)
  with ne hd show ?thesis unfolding marked_def by blast
qed

lemma set_splice2: "set (splice2 xs pos m) \<subseteq> insert m (set xs)"
  unfolding splice2_def using set_take_subset[of pos xs] set_drop_subset[of "pos + 2" xs]
  by auto

lemma marked_splice2:
  assumes "marked ps" "Suc pos < length ps"
  shows "marked (splice2 ps pos (ps ! pos @ ps ! Suc pos))"
proof -
  from assms(1) obtain p0 rest where ps: "ps = (WORD_START # p0) # rest"
    and ne: "[] \<notin> set rest" and hd: "\<forall>p \<in> set rest. hd p \<noteq> WORD_START"
    unfolding marked_def by blast
  show ?thesis
  proof (cases pos)
    case 0
    with assms(2) ps obtain r rest' where r: "rest = r # rest'" by (cases rest) auto
    have "splice2 ps 0 (ps ! 0 @ ps ! Suc 0) = (WORD_START # (p0 @ r)) # rest'"
      by (simp add: splice2_def ps r)
    with ne hd r 0 show ?thesis unfolding marked_def by auto
  next
    case (Suc k)
    with assms(2) ps have k: "Suc k < length rest" by simp
    let ?m = "rest ! k @ rest ! Suc k"
    have eq: "splice2 ps pos (ps ! pos @ ps ! Suc pos) = (WORD_START # p0) # splice2 rest k ?m"
      by (simp add: splice2_def ps Suc)
    have rk: "rest ! k \<in> set rest" using k by simp
    with ne have nk: "rest ! k \<noteq> []" by auto
    then have m1: "?m \<noteq> []" and m2: "hd ?m = hd (rest ! k)" by simp_all
    from m2 rk hd have m3: "hd ?m \<noteq> WORD_START" by simp
    have "[] \<notin> set (splice2 rest k ?m)" using set_splice2[of rest k ?m] ne m1 by auto
    moreover have "\<forall>p \<in> set (splice2 rest k ?m). hd p \<noteq> WORD_START"
      using set_splice2[of rest k ?m] hd m3 by auto
    ultimately show ?thesis unfolding marked_def eq by blast
  qed
qed

lemma marked_bpe_loop: "marked pieces \<Longrightarrow> marked (bpe_loop mm pieces)"
proof (induction mm pieces rule: bpe_loop.induct)
  case (1 mm pieces)
  show ?case
  proof (cases mm pieces rule: bpe_iter_cases)
    case stop
    from bpe_loop_unfold[OF stop] "1.prems" show ?thesis by simp
  next
    case (merge pos rank)
    have "marked (splice2 pieces pos (pieces ! pos @ pieces ! (pos + 1)))"
      using marked_splice2[OF "1.prems", of pos] merge(1) by simp
    from "1.IH"[OF merge(3)[symmetric] _ this] bpe_loop_unfold[OF merge(3)]
    show ?thesis by simp
  qed
qed

lemma strip_marked: "marked ps \<Longrightarrow> concat (map strip_marker ps) = tl (concat ps)"
proof -
  assume "marked ps"
  then obtain p0 rest where ps: "ps = (WORD_START # p0) # rest"
    and hd: "\<forall>p \<in> set rest. hd p \<noteq> WORD_START"
    unfolding marked_def by blast
  have "map strip_marker rest = rest"
    using hd by (induction rest) (auto simp: strip_marker_def)
  then show ?thesis by (simp add: ps strip_marker_def)
qed

lemma marked_not_Nil: "marked ps \<Longrightarrow> [] \<notin> set ps"
  unfolding marked_def by auto

lemma applyBPEToWord_word:
  assumes "w \<noteq> []" "WORD_START \<notin> set (tl w)"
  shows "concat (map strip_marker (applyBPEToWord t w)) = w"
    and "[] \<notin> set (applyBPEToWord t w)"
    and "set (concat (applyBPEToWord t w)) = insert WORD_START (set w)"
proof -
  let ?mm = "build_mergeMap (merges t) 0 []"
  have ap: "applyBPEToWord t w = bpe_loop ?mm (wordToChars w)"
    using assms(1) by (simp add: applyBPEToWord_def Let_def wordToChars_Nil_iff)
  have mk: "marked (applyBPEToWord t w)"
    unfolding ap by (rule marked_bpe_loop[OF marked_wordToChars[OF assms]])
  have cc: "concat (applyBPEToWord t w) = WORD_START # w"
    unfolding ap by (simp add: bpe_loop_concat concat_wordToChars[OF assms(1)])
  show "concat (map strip_marker (applyBPEToWord t w)) = w"
    using strip_marked[OF mk] cc by simp
  show "[] \<notin> set (applyBPEToWord t w)" by (rule marked_not_Nil[OF mk])
  show "set (concat (applyBPEToWord t w)) = insert WORD_START (set w)" using cc by simp
qed


lemma roundtrip_piece:
  assumes "\<not> all_space p"
    and "\<exists>v. Map_get (tokenToId t) p = Some v \<and> v \<noteq> JNull \<and> v \<noteq> JUndef
           \<and> Map_get (idToToken t) (Number s2n v) = Some p"
    and "p \<notin> set (specialTokens t)"
  shows "concat (map (decode_id s2n t True) (encode_piece t keep p)) = [p]"
proof -
  from assms(2) obtain v where v: "Map_get (tokenToId t) p = Some v" "v \<noteq> JNull" "v \<noteq> JUndef"
    "Map_get (idToToken t) (Number s2n v) = Some p" by blast
  have "encode_piece t keep p = [v]"
    using assms(1) v(1,2,3) by (simp add: encode_piece_def id_of_def nullish_def)
  moreover have "token_of s2n t v = p" using v(4) by (simp add: token_of_def)
  ultimately show ?thesis using assms(3) by (simp add: decode_id_def)
qed

lemma roundtrip_space:
  assumes "all_space p"
    and "keep \<longrightarrow> token_of s2n t (nullish (id_of t (ascii ''<SPACE>'' @ dec_string (length p)))
            (id_of t (ascii ''<UNK>''))) \<in> set (specialTokens t)"
  shows "concat (map (decode_id s2n t True) (encode_piece t keep p)) = []"
  using assms by (simp add: encode_piece_def decode_id_def)

lemma roundtrip_pieces:
  assumes "\<forall>p \<in> set ps. \<not> all_space p \<longrightarrow>
        (\<exists>v. Map_get (tokenToId t) p = Some v \<and> v \<noteq> JNull \<and> v \<noteq> JUndef
           \<and> Map_get (idToToken t) (Number s2n v) = Some p)"
    and "\<forall>p \<in> set ps. \<not> all_space p \<longrightarrow> p \<notin> set (specialTokens t)"
    and "\<forall>p \<in> set ps. all_space p \<and> keep \<longrightarrow>
        token_of s2n t (nullish (id_of t (ascii ''<SPACE>'' @ dec_string (length p)))
            (id_of t (ascii ''<UNK>''))) \<in> set (specialTokens t)"
  shows "concat (map (decode_id s2n t True) (concat (map (encode_piece t keep) ps)))
           = filter (\<lambda>p. \<not> all_space p) ps"
  using assms
proof (induction ps)
  case Nil
  then show ?case by simp
next
  case (Cons p ps)
  have IH: "concat (map (decode_id s2n t True) (concat (map (encode_piece t keep) ps)))
           = filter (\<lambda>p. \<not> all_space p) ps"
    by (rule Cons.IH) (use Cons.prems in auto)
  show ?case
  proof (cases "all_space p")
    case True
    have "concat (map (decode_id s2n t True) (encode_piece t keep p)) = []"
      by (rule roundtrip_space[OF True]) (use Cons.prems(3) True in auto)
    with IH True show ?thesis by simp
  next
    case False
    have "concat (map (decode_id s2n t True) (encode_piece t keep p)) = [p]"
      by (rule roundtrip_piece[OF False]) (use Cons.prems(1,2) False in auto)
    with IH False show ?thesis by simp
  qed
qed

lemma strip_words:
  assumes "\<forall>w \<in> set ws. all_space w \<or> (\<forall>c \<in> set w. \<not> is_space c)"
    and "\<forall>w \<in> set ws. WORD_START \<notin> set (tl w)"
  shows "concat (map strip_marker
            (filter (\<lambda>p. \<not> all_space p) (concat (map (tokenize_word t) ws))))
           = concat (filter (\<lambda>w. \<not> all_space w) ws)"
  using assms
proof (induction ws)
  case Nil
  then show ?case by simp
next
  case (Cons w ws)
  have IH: "concat (map strip_marker
            (filter (\<lambda>p. \<not> all_space p) (concat (map (tokenize_word t) ws))))
           = concat (filter (\<lambda>w. \<not> all_space w) ws)"
    by (rule Cons.IH) (use Cons.prems in auto)
  show ?case
  proof (cases "all_space w")
    case True
    then have "tokenize_word t w = [w]" by (simp add: tokenize_word_def)
    then show ?thesis using IH True by simp
  next
    case ns: False
    show ?thesis
    proof (cases "w = []")
      case True
      with ns have "tokenize_word t w = []" by (simp add: tokenize_word_def)
      then show ?thesis using IH ns True by simp
    next
      case False
      from Cons.prems(1) ns have nosp: "\<forall>c \<in> set w. \<not> is_space c" by auto
      from Cons.prems(2) have mk: "WORD_START \<notin> set (tl w)" by simp
      note ap = applyBPEToWord_word[OF False mk, of t]
      have keep: "filter (\<lambda>p. \<not> all_space p) (applyBPEToWord t w) = applyBPEToWord t w"
      proof -
        have "\<not> all_space p" if p: "p \<in> set (applyBPEToWord t w)" for p
        proof -
          from p ap(2) have "p \<noteq> []" by auto
          then have "hd p \<in> set p" by simp
          with p have "hd p \<in> set (concat (applyBPEToWord t w))" by auto
          with ap(3) nosp not_space_WORD_START have "\<not> is_space (hd p)" by auto
          with \<open>hd p \<in> set p\<close> show ?thesis by (auto simp: all_space_iff)
        qed
        then show ?thesis by (simp add: filter_id_conv)
      qed
      have "tokenize_word t w = applyBPEToWord t w"
        using ns False by (simp add: tokenize_word_def)
      then show ?thesis using IH ns keep ap(1) by simp
    qed
  qed
qed

text \<open>
  C7, as amended. Let the text be such that every piece of it that is not white space
  is in the vocabulary with an id that the id-to-token Map maps back to the piece, no
  such piece is a special token, the id that \<open>encode\<close> gives a run of white space (when
  it keeps them) decodes to a special token, and the marker U+2581 does not occur in a
  word after its first code unit. Then \<open>decode(encode(text, {addBosEos: false}))\<close> is the
  normalised text without its white space: the words' characters, in order.
\<close>

theorem decode_encode_words:
  assumes "\<forall>p \<in> set (tokenize norm t text). \<not> all_space p \<longrightarrow>
        (\<exists>v. Map_get (tokenToId t) p = Some v \<and> v \<noteq> JNull \<and> v \<noteq> JUndef
           \<and> Map_get (idToToken t) (Number s2n v) = Some p)"
    and "\<forall>p \<in> set (tokenize norm t text). \<not> all_space p \<longrightarrow> p \<notin> set (specialTokens t)"
    and "\<forall>p \<in> set (tokenize norm t text). all_space p \<and> keepSpaces opts \<longrightarrow>
        token_of s2n t (nullish (id_of t (ascii ''<SPACE>'' @ dec_string (length p)))
            (id_of t (ascii ''<UNK>''))) \<in> set (specialTokens t)"
    and "\<forall>w \<in> set (split_keep_ws False [] (if lower t then norm text else text)).
        WORD_START \<notin> set (tl w)"
    and "\<not> addBosEos opts"
  shows "decode s2n t (encode norm t text opts) True
           = filter (\<lambda>c. \<not> is_space c) (if lower t then norm text else text)"
proof -
  let ?src = "if lower t then norm text else text"
  let ?ws = "split_keep_ws False [] ?src"
  have tk: "tokenize norm t text = concat (map (tokenize_word t) ?ws)"
    by (simp add: tokenize_def Let_def tokenize_words_map)
  have en: "encode norm t text opts
      = concat (map (encode_piece t (keepSpaces opts)) (tokenize norm t text))"
    using assms(5) by (simp add: encode_map)
  have parts: "concat (map (decode_id s2n t True) (encode norm t text opts))
      = filter (\<lambda>p. \<not> all_space p) (tokenize norm t text)"
    unfolding en by (rule roundtrip_pieces[OF assms(1,2,3)])
  have ent: "\<forall>w \<in> set ?ws. all_space w \<or> (\<forall>c \<in> set w. \<not> is_space c)"
    by (rule split_keep_ws_entries) simp
  have "decode s2n t (encode norm t text opts) True
      = concat (map strip_marker (filter (\<lambda>p. \<not> all_space p) (concat (map (tokenize_word t) ?ws))))"
    by (simp only: decode_map parts tk)
  also have "\<dots> = concat (filter (\<lambda>w. \<not> all_space w) ?ws)"
    by (rule strip_words[OF ent assms(4)])
  also have "\<dots> = filter (\<lambda>c. \<not> is_space c) ?src"
    using split_keep_ws_words[of False "[]" ?src] by simp
  finally show ?thesis .
qed


theorem decode_encode_words_witness:
  "tokenize (\<lambda>s. s) ex_trained (ascii ''ab ab'')
       = [WORD_START # ascii ''ab'', ascii '' '', WORD_START # ascii ''ab'']
   \<and> decode (\<lambda>s. NaN) ex_trained
        (encode (\<lambda>s. s) ex_trained (ascii ''ab ab'') \<lparr>addBosEos = False, keepSpaces = True\<rparr>) True
       = ascii ''abab''"
proof -
  let ?p = "WORD_START # ascii ''ab''"
  let ?o = "\<lparr>addBosEos = False, keepSpaces = True\<rparr>"
  have tk: "tokenize (\<lambda>s. s) ex_trained (ascii ''ab ab'') = [?p, ascii '' '', ?p]"
    by code_simp
  have lo: "lower ex_trained = False" by code_simp
  have sp: "split_keep_ws False [] (ascii ''ab ab'') = [ascii ''ab'', ascii '' '', ascii ''ab'']"
    by code_simp
  have a1: "\<not> all_space ?p" and a2: "all_space (ascii '' '')" by code_simp+
  have v1: "Map_get (tokenToId ex_trained) ?p = Some (JNum (Fin 5))" by code_simp
  have v2: "Map_get (idToToken ex_trained) (Fin 5) = Some ?p" by code_simp
  have v3: "?p \<notin> set (specialTokens ex_trained)" by code_simp
  have v4: "token_of (\<lambda>s. NaN) ex_trained
      (nullish (id_of ex_trained (ascii ''<SPACE>'' @ dec_string (length (ascii '' ''))))
         (id_of ex_trained (ascii ''<UNK>''))) \<in> set (specialTokens ex_trained)"
    by code_simp
  have v5: "WORD_START \<notin> set (tl (ascii ''ab''))" "WORD_START \<notin> set (tl (ascii '' ''))"
    by code_simp+
  have fl: "filter (\<lambda>c. \<not> is_space c) (ascii ''ab ab'') = ascii ''abab''" by code_simp
  have h1: "\<forall>p \<in> set (tokenize (\<lambda>s. s) ex_trained (ascii ''ab ab'')). \<not> all_space p \<longrightarrow>
        (\<exists>v. Map_get (tokenToId ex_trained) p = Some v \<and> v \<noteq> JNull \<and> v \<noteq> JUndef
           \<and> Map_get (idToToken ex_trained) (Number (\<lambda>s. NaN) v) = Some p)"
    unfolding tk using a1 a2 v1 v2 by simp
  have h2: "\<forall>p \<in> set (tokenize (\<lambda>s. s) ex_trained (ascii ''ab ab'')). \<not> all_space p \<longrightarrow>
        p \<notin> set (specialTokens ex_trained)"
    unfolding tk using a1 a2 v3 by simp
  have h3: "\<forall>p \<in> set (tokenize (\<lambda>s. s) ex_trained (ascii ''ab ab'')).
        all_space p \<and> keepSpaces ?o \<longrightarrow>
        token_of (\<lambda>s. NaN) ex_trained
          (nullish (id_of ex_trained (ascii ''<SPACE>'' @ dec_string (length p)))
            (id_of ex_trained (ascii ''<UNK>''))) \<in> set (specialTokens ex_trained)"
    unfolding tk using a1 a2 v4 by simp
  have h4: "\<forall>w \<in> set (split_keep_ws False []
        (if lower ex_trained then (\<lambda>s. s) (ascii ''ab ab'') else ascii ''ab ab'')).
        WORD_START \<notin> set (tl w)"
    unfolding lo using sp v5 by simp
  have h5: "\<not> addBosEos ?o" by simp
  from decode_encode_words[OF h1 h2 h3 h4 h5] lo fl tk show ?thesis by simp
qed

text \<open>
  C7 as stated fails for a text that holds the marker character inside a word. Train
  on the corpus \<open>a_b\<close> (one word; \<open>_\<close> is U+2581, which is not white space): every piece of
  the text \<open>a_b\<close> is in the vocabulary, and the text has no white space at all, but
  \<open>decode\<close> drops the first code unit of every token that starts with the marker, so
  \<open>decode(encode(text))\<close> is \<open>ab\<close>.
\<close>

theorem decode_encode_marker_counterexample:
  "split_keep_ws False [] ex_marker_text = [ex_marker_text]
   \<and> tokenize (\<lambda>s. s) ex_marker_trained ex_marker_text
       = [WORD_START # ascii ''a'', [WORD_START], ascii ''b'']
   \<and> Map_get (tokenToId ex_marker_trained) (WORD_START # ascii ''a'') = Some (JNum (Fin 5))
   \<and> Map_get (tokenToId ex_marker_trained) [WORD_START] = Some (JNum (Fin 6))
   \<and> Map_get (tokenToId ex_marker_trained) (ascii ''b'') = Some (JNum (Fin 7))
   \<and> encode (\<lambda>s. s) ex_marker_trained ex_marker_text \<lparr>addBosEos = False, keepSpaces = True\<rparr>
       = [JNum (Fin 5), JNum (Fin 6), JNum (Fin 7)]
   \<and> decode (\<lambda>s. NaN) ex_marker_trained
        (encode (\<lambda>s. s) ex_marker_trained ex_marker_text
           \<lparr>addBosEos = False, keepSpaces = True\<rparr>) True
       = ascii ''ab''
   \<and> ascii ''ab'' \<noteq> ex_marker_text"
  by code_simp

end
